theory Spec2Isabelle
  imports Complex_Main
begin

section \<open>Continued-fraction approximation (continued\_fraction.cpp)\<close>

text \<open>
  In the quotient-difference tables and the evaluators the C++ type \<open>double\<close> is
  modelled by \<^typ>\<open>real\<close>: arithmetic there is exact, there is no rounding, no overflow,
  no infinity and no NaN, and a division by zero has HOL's value \<open>0\<close>. Where the source
  decides what a caller sees on a rounded or an infinite value, the model follows double
  arithmetic: in the grid loop of \<open>extrapolate_distinct\<close> (the running sum
  \<open>t += step_size\<close> sets the number of estimates) and in \<open>check_estimates_stability\<close> the
  sum, the difference and the comparison are parameters, and the stability check is also
  run on IEEE 754 doubles with rounding, infinities and NaN (type \<open>double\<close>); the two
  loop tests of the bisection give a division by zero its IEEE value.
  \<open>size_t\<close> is \<^typ>\<open>nat\<close> (every subtraction in the source is guarded or is
  written out below), \<open>int\<close> is \<^typ>\<open>int\<close> (the only arithmetic on it is the negation
  of a negative diagonal index).
\<close>

subsection \<open>Vectors and reads behind their end\<close>

text \<open>
  \<open>std::vector::operator[]\<close> does not check its index. A read of an element behind
  the end of a vector is undefined behaviour in C++; in the model it does not stop the
  program but yields the value \<open>junk v i\<close> found behind vector \<open>v\<close> at index \<open>i\<close>, an
  arbitrary parameter of every function that reads. Every read of the
  quotient-difference algorithm is also recorded, so that its accesses can be checked;
  \<open>quotdiff_algorithm_junk_independent\<close> below shows that its result does not depend
  on \<open>junk\<close>.
  An access to a table row that does not exist has no continuation and is the error
  \<open>OutOfRange\<close>.
\<close>

datatype error = OutOfRange | FitFailure

datatype vec =
    PsCoeffs | QTable nat | ETable nat | Coeffs | ReciprocalCoeffs | CfCoeffs | CountsHist

type_synonym memory = "vec \<Rightarrow> nat \<Rightarrow> real"

type_synonym read = "vec \<times> nat"

definition rd :: "memory \<Rightarrow> vec \<Rightarrow> real list \<Rightarrow> nat \<Rightarrow> real" where
  "rd junk v xs i = (if i < length xs then xs ! i else junk v i)"

text \<open>A read \<open>(v, i)\<close> is within bounds of vectors of size \<open>n\<close>.\<close>

fun in_bounds :: "nat \<Rightarrow> read \<Rightarrow> bool" where
  "in_bounds n (v, i) = (i < n)"

text \<open>Writing the cells \<open>0, 1, \<dots>\<close> of a row, the rest of the row is kept.\<close>

definition write_row :: "real list \<Rightarrow> (real \<times> read list) list \<Rightarrow> real list" where
  "write_row old cells = map fst cells @ drop (length cells) old"

subsection \<open>The quotient-difference algorithm\<close>

record qd_state =
  q_table :: "real list list"
  e_table :: "real list list"
  reads :: "read list"

text \<open>Lines 75-76: \<open>q_table[1][i] = ps_coeffs[i + 1]/ps_coeffs[i]\<close> for \<open>i < q_table[1].size()\<close>.\<close>

definition q_row1 :: "memory \<Rightarrow> real list \<Rightarrow> nat \<Rightarrow> (real \<times> read list) list" where
  "q_row1 junk ps depth =
     map (\<lambda>i. (rd junk PsCoeffs ps (i + 1) / rd junk PsCoeffs ps i,
               [(PsCoeffs, i + 1), (PsCoeffs, i)])) [0..<depth]"

text \<open>Lines 78-79: \<open>e_table[1][j] = q_table[1][j + 1] - q_table[1][j] + e_table[0][j + 1]\<close>
  for \<open>j < depth - 1\<close>.\<close>

definition e_row1 :: "memory \<Rightarrow> real list \<Rightarrow> real list \<Rightarrow> nat \<Rightarrow> (real \<times> read list) list" where
  "e_row1 junk q1 e0 depth =
     map (\<lambda>j. (rd junk (QTable 1) q1 (j + 1) - rd junk (QTable 1) q1 j
                  + rd junk (ETable 0) e0 (j + 1),
               [(QTable 1, j + 1), (QTable 1, j), (ETable 0, j + 1)])) [0..<depth - 1]"

text \<open>Lines 82-83: \<open>q_table[i][j] = q_table[i - 1][j + 1]*e_table[i - 1][j + 1]/e_table[i - 1][j]\<close>
  for \<open>j < depth\<close>.\<close>

definition q_row :: "memory \<Rightarrow> nat \<Rightarrow> real list \<Rightarrow> real list \<Rightarrow> nat \<Rightarrow> (real \<times> read list) list" where
  "q_row junk i qp ep depth =
     map (\<lambda>j. (rd junk (QTable (i - 1)) qp (j + 1) * rd junk (ETable (i - 1)) ep (j + 1)
                  / rd junk (ETable (i - 1)) ep j,
               [(QTable (i - 1), j + 1), (ETable (i - 1), j + 1), (ETable (i - 1), j)]))
         [0..<depth]"

text \<open>Lines 85-86: \<open>e_table[i][j] = q_table[i][j + 1] - q_table[i][j] + e_table[i - 1][j + 1]\<close>
  for \<open>j < depth\<close>.\<close>

definition e_row :: "memory \<Rightarrow> nat \<Rightarrow> real list \<Rightarrow> real list \<Rightarrow> nat \<Rightarrow> (real \<times> read list) list" where
  "e_row junk i q ep depth =
     map (\<lambda>j. (rd junk (QTable i) q (j + 1) - rd junk (QTable i) q j
                  + rd junk (ETable (i - 1)) ep (j + 1),
               [(QTable i, j + 1), (QTable i, j), (ETable (i - 1), j + 1)])) [0..<depth]"

text \<open>The body of the loop of lines 81-87 for one row \<open>i\<close>.\<close>

definition qd_step :: "memory \<Rightarrow> nat \<Rightarrow> nat \<Rightarrow> qd_state \<Rightarrow> qd_state" where
  "qd_step junk depth i s =
     (let qcells = q_row junk i (q_table s ! (i - 1)) (e_table s ! (i - 1)) depth;
          qt = (q_table s)[i := write_row (q_table s ! i) qcells];
          ecells = e_row junk i (qt ! i) (e_table s ! (i - 1)) depth;
          et = (e_table s)[i := write_row (e_table s ! i) ecells]
      in \<lparr>q_table = qt, e_table = et,
          reads = reads s @ concat (map snd qcells) @ concat (map snd ecells)\<rparr>)"

text \<open>The two loops of lines 75-79 on the zero-initialised tables.\<close>

definition qd_init :: "memory \<Rightarrow> real list \<Rightarrow> nat \<Rightarrow> qd_state" where
  "qd_init junk ps depth =
     (let zeros = replicate depth (replicate depth 0);
          qcells = q_row1 junk ps depth;
          qt = zeros[1 := write_row (zeros ! 1) qcells];
          ecells = e_row1 junk (qt ! 1) (zeros ! 0) depth;
          et = zeros[1 := write_row (zeros ! 1) ecells]
      in \<lparr>q_table = qt, e_table = et,
          reads = concat (map snd qcells) @ concat (map snd ecells)\<rparr>)"

text \<open>Lines 89-95: the coefficients pushed to \<open>cf_coeffs\<close>, each with the read it makes.\<close>

definition qd_output :: "qd_state \<Rightarrow> nat \<Rightarrow> (real \<times> read list) list" where
  "qd_output s depth =
     map (\<lambda>i. if i mod 2 = 0
              then (- (e_table s ! (i div 2) ! 0), [(ETable (i div 2), 0)])
              else (- (q_table s ! ((i + 1) div 2) ! 0), [(QTable ((i + 1) div 2), 0)]))
         [1..<depth]"

record qd_result =
  cf_out :: "real list"
  qd_reads :: "read list"

text \<open>
  \<open>quotdiff_algorithm(ps_coeffs, cf_coeffs)\<close>: the result is the vector \<open>cf_coeffs\<close> after
  the calls of \<open>push_back\<close>, with the reads made. With fewer than two coefficients the
  tables have no row 1.
\<close>

definition quotdiff_algorithm :: "memory \<Rightarrow> real list \<Rightarrow> real list \<Rightarrow> error + qd_result" where
  "quotdiff_algorithm junk ps cf_coeffs0 =
     (let depth = length ps in
      if depth < 2 then Inl OutOfRange
      else
        let s = fold (qd_step junk depth) [2..<depth] (qd_init junk ps depth);
            out = qd_output s depth
        in Inr \<lparr>cf_out = cf_coeffs0 @ [ps ! 0] @ map fst out,
                qd_reads = reads s @ [(PsCoeffs, 0)] @ concat (map snd out)\<rparr>)"

subsection \<open>Offsets above and below the diagonal\<close>

text \<open>
  \<open>quotdiff_above_diagonal(coeffs, offset, offset_coeffs, cf_coeffs)\<close>: the result is the
  pair of its two output parameters, in the order of the parameter list.
\<close>

definition quotdiff_above_diagonal ::
  "memory \<Rightarrow> real list \<Rightarrow> nat \<Rightarrow> real list \<Rightarrow> real list \<Rightarrow> error + (real list \<times> real list)" where
  "quotdiff_above_diagonal junk coeffs offset offset_coeffs0 cf_coeffs0 =
     (let holding_coeffs = map (\<lambda>i. coeffs ! i) [offset..<length coeffs] in
      case quotdiff_algorithm junk holding_coeffs cf_coeffs0 of
        Inl e \<Rightarrow> Inl e
      | Inr r \<Rightarrow>
          Inr (offset_coeffs0 @ map (\<lambda>i. rd junk Coeffs coeffs i) [0..<offset], cf_out r))"

text \<open>The reciprocal series of lines 121-128.\<close>

definition reciprocal_series :: "memory \<Rightarrow> real list \<Rightarrow> real list" where
  "reciprocal_series junk coeffs =
     fold (\<lambda>i reciprocal_coeffs.
             let holding_val =
                   fold (\<lambda>j h. h + coeffs ! (i - j) * reciprocal_coeffs ! j) [0..<i] 0
             in reciprocal_coeffs @ [- holding_val / rd junk Coeffs coeffs 0])
          [1..<length coeffs] [1 / rd junk Coeffs coeffs 0]"

definition quotdiff_below_diagonal ::
  "memory \<Rightarrow> real list \<Rightarrow> nat \<Rightarrow> real list \<Rightarrow> real list \<Rightarrow> error + (real list \<times> real list)" where
  "quotdiff_below_diagonal junk coeffs offset offset_coeffs0 cf_coeffs0 =
     (let reciprocal_coeffs = reciprocal_series junk coeffs;
          offset_coeffs =
            offset_coeffs0 @ map (\<lambda>i. rd junk ReciprocalCoeffs reciprocal_coeffs i) [0..<offset];
          holding_coeffs = map (\<lambda>i. reciprocal_coeffs ! i) [offset..<length coeffs]
      in case quotdiff_algorithm junk holding_coeffs cf_coeffs0 of
           Inl e \<Rightarrow> Inl e
         | Inr r \<Rightarrow> Inr (offset_coeffs, cf_out r))"

subsection \<open>The constructor of ContinuedFraction\<close>

record ContinuedFraction =
  ps_coeffs :: "real list"
  cf_coeffs :: "real list"
  offset_coeffs :: "real list"
  diagonal_idx :: int
  degree :: nat

text \<open>
  Lines 143-154. The members \<open>cf_coeffs\<close> and \<open>offset_coeffs\<close> start empty. The call
  of line 150 passes the member \<open>cf_coeffs\<close> for the parameter \<open>offset_coeffs\<close> and the
  member \<open>offset_coeffs\<close> for the parameter \<open>cf_coeffs\<close>; the call of line 152 passes
  them in the order of the parameter list.
\<close>

definition new_ContinuedFraction ::
  "memory \<Rightarrow> real list \<Rightarrow> int \<Rightarrow> nat \<Rightarrow> error + ContinuedFraction" where
  "new_ContinuedFraction junk ps_cf di dg =
     (if di = 0 then
        (case quotdiff_algorithm junk ps_cf [] of
           Inl e \<Rightarrow> Inl e
         | Inr r \<Rightarrow> Inr \<lparr>ps_coeffs = ps_cf, cf_coeffs = cf_out r, offset_coeffs = [],
                         diagonal_idx = di, degree = dg\<rparr>)
      else if di > 0 then
        (case quotdiff_above_diagonal junk ps_cf (nat di) [] [] of
           Inl e \<Rightarrow> Inl e
         | Inr (first_out, second_out) \<Rightarrow>
             Inr \<lparr>ps_coeffs = ps_cf, cf_coeffs = first_out, offset_coeffs = second_out,
                  diagonal_idx = di, degree = dg\<rparr>)
      else
        (case quotdiff_below_diagonal junk ps_cf (nat (- di)) [] [] of
           Inl e \<Rightarrow> Inl e
         | Inr (first_out, second_out) \<Rightarrow>
             Inr \<lparr>ps_coeffs = ps_cf, cf_coeffs = second_out, offset_coeffs = first_out,
                  diagonal_idx = di, degree = dg\<rparr>))"

subsection \<open>Evaluation at a real point\<close>

definition TOLERANCE :: real where
  "TOLERANCE = 1 / 10 ^ 20"

definition DERIV_DELTA :: real where
  "DERIV_DELTA = 1 / 10 ^ 8"

definition get_rescale_value :: "real \<Rightarrow> real \<Rightarrow> real" where
  "get_rescale_value numerator denominator =
     (let rescale_val = \<bar>numerator\<bar> + \<bar>denominator\<bar> in
      if rescale_val > 1 / TOLERANCE then 1 / rescale_val
      else if rescale_val < TOLERANCE then 1 / rescale_val
      else 1)"

record 'a euler_state =
  current_num :: 'a
  prev_num1 :: 'a
  prev_num2 :: 'a
  current_denom :: 'a
  prev_denom1 :: 'a
  prev_denom2 :: 'a

text \<open>
  One round of the loop that \<open>evaluate_on_diagonal\<close>, \<open>evaluate_above_diagonal\<close> and
  \<open>evaluate_below_diagonal\<close> have in the same words: Euler's recursion, the shift of
  the previous values, and the rescaling of all six values.
\<close>

definition euler_step :: "memory \<Rightarrow> real list \<Rightarrow> real \<Rightarrow> nat \<Rightarrow> real euler_state \<Rightarrow> real euler_state" where
  "euler_step junk cfc val i s =
     (let cn = prev_num1 s + rd junk CfCoeffs cfc i * val * prev_num2 s;
          cd = prev_denom1 s + rd junk CfCoeffs cfc i * val * prev_denom2 s;
          rescale_val = get_rescale_value cn cd
      in \<lparr>current_num = cn * rescale_val,
          prev_num1 = cn * rescale_val,
          prev_num2 = prev_num1 s * rescale_val,
          current_denom = cd * rescale_val,
          prev_denom1 = cd * rescale_val,
          prev_denom2 = prev_denom1 s * rescale_val\<rparr>)"

definition euler_init :: "memory \<Rightarrow> real list \<Rightarrow> real euler_state" where
  "euler_init junk cfc =
     \<lparr>current_num = 0, prev_num1 = rd junk CfCoeffs cfc 0, prev_num2 = 0,
      current_denom = 0, prev_denom1 = 1, prev_denom2 = 1\<rparr>"

definition euler_loop :: "memory \<Rightarrow> real list \<Rightarrow> real \<Rightarrow> nat \<Rightarrow> real euler_state" where
  "euler_loop junk cfc val depth = fold (euler_step junk cfc val) [1..<depth] (euler_init junk cfc)"

definition evaluate_on_diagonal :: "memory \<Rightarrow> real list \<Rightarrow> real \<Rightarrow> nat \<Rightarrow> real" where
  "evaluate_on_diagonal junk cfc val depth =
     (let s = euler_loop junk cfc val depth in val * current_num s / current_denom s)"

text \<open>The sum \<open>offset_coeffs[i]*pow(val, i)\<close> over \<open>i < min(offset_coeffs.size(), depth)\<close>.\<close>

definition offset_sum :: "real list \<Rightarrow> real \<Rightarrow> nat \<Rightarrow> real" where
  "offset_sum offc val depth =
     fold (\<lambda>i acc. acc + offc ! i * val ^ i) [0..<min (length offc) depth] 0"

definition evaluate_above_diagonal :: "memory \<Rightarrow> real list \<Rightarrow> real list \<Rightarrow> real \<Rightarrow> nat \<Rightarrow> real" where
  "evaluate_above_diagonal junk cfc offc val depth =
     (let s = euler_loop junk cfc val depth;
          offset_part = offset_sum offc val depth
      in val * (offset_part + val ^ min (length offc) depth * current_num s / current_denom s))"

definition evaluate_below_diagonal :: "memory \<Rightarrow> real list \<Rightarrow> real list \<Rightarrow> real \<Rightarrow> nat \<Rightarrow> real" where
  "evaluate_below_diagonal junk cfc offc val depth =
     (let s = euler_loop junk cfc val depth;
          offset_terms = offset_sum offc val depth
      in val / (offset_terms + val ^ min (length offc) depth * current_num s / current_denom s))"

text \<open>\<open>ContinuedFraction::operator()\<close>.\<close>

definition cf_eval :: "memory \<Rightarrow> ContinuedFraction \<Rightarrow> real \<Rightarrow> real" where
  "cf_eval junk cf val =
     (if diagonal_idx cf > 0 then
        evaluate_above_diagonal junk (cf_coeffs cf) (offset_coeffs cf) val (degree cf)
      else if diagonal_idx cf < 0 then
        evaluate_below_diagonal junk (cf_coeffs cf) (offset_coeffs cf) val (degree cf)
      else evaluate_on_diagonal junk (cf_coeffs cf) val (degree cf))"

text \<open>
  Euler's recursion as the specification writes it, with no rescaling:
  \<open>num[i] = num[i-1] + c[i]*x*num[i-2]\<close> and the same for \<open>den\<close>.
\<close>

definition plain_step :: "memory \<Rightarrow> real list \<Rightarrow> real \<Rightarrow> nat \<Rightarrow> real euler_state \<Rightarrow> real euler_state" where
  "plain_step junk cfc val i s =
     (let cn = prev_num1 s + rd junk CfCoeffs cfc i * val * prev_num2 s;
          cd = prev_denom1 s + rd junk CfCoeffs cfc i * val * prev_denom2 s
      in \<lparr>current_num = cn, prev_num1 = cn, prev_num2 = prev_num1 s,
          current_denom = cd, prev_denom1 = cd, prev_denom2 = prev_denom1 s\<rparr>)"

definition plain_loop :: "memory \<Rightarrow> real list \<Rightarrow> real \<Rightarrow> nat \<Rightarrow> real euler_state" where
  "plain_loop junk cfc val depth = fold (plain_step junk cfc val) [1..<depth] (euler_init junk cfc)"

definition evaluate_without_rescaling :: "memory \<Rightarrow> real list \<Rightarrow> real \<Rightarrow> nat \<Rightarrow> real" where
  "evaluate_without_rescaling junk cfc val depth =
     (let s = plain_loop junk cfc val depth in val * current_num s / current_denom s)"

subsection \<open>Evaluation at a complex point and the complex-step derivative\<close>

text \<open>\<open>std::norm\<close> of a complex number is the square of its magnitude.\<close>

definition std_norm :: "complex \<Rightarrow> real" where
  "std_norm z = Re z * Re z + Im z * Im z"

definition get_rescale_value_complex :: "complex \<Rightarrow> complex \<Rightarrow> real" where
  "get_rescale_value_complex numerator denominator =
     (let rescale_val = std_norm numerator + std_norm denominator in
      if rescale_val > 1 / TOLERANCE then 1 / rescale_val
      else if rescale_val < TOLERANCE then 1 / rescale_val
      else 1)"

definition complex_step :: "memory \<Rightarrow> real list \<Rightarrow> complex \<Rightarrow> nat \<Rightarrow> complex euler_state \<Rightarrow> complex euler_state" where
  "complex_step junk cfc perturbed_val j s =
     (let coeff = Complex (rd junk CfCoeffs cfc j) 0;
          cn = prev_num1 s + coeff * perturbed_val * prev_num2 s;
          cd = prev_denom1 s + coeff * perturbed_val * prev_denom2 s;
          rescale_val = of_real (get_rescale_value_complex cn cd)
      in \<lparr>current_num = cn * rescale_val,
          prev_num1 = cn * rescale_val,
          prev_num2 = prev_num1 s * rescale_val,
          current_denom = cd * rescale_val,
          prev_denom1 = cd * rescale_val,
          prev_denom2 = prev_denom1 s * rescale_val\<rparr>)"

definition complex_init :: "memory \<Rightarrow> real list \<Rightarrow> complex euler_state" where
  "complex_init junk cfc =
     \<lparr>current_num = 0, prev_num1 = Complex (rd junk CfCoeffs cfc 0) 0, prev_num2 = 0,
      current_denom = 0, prev_denom1 = 1, prev_denom2 = 1\<rparr>"

text \<open>The loop runs \<open>j\<close> from 1 below \<open>bound\<close>.\<close>

definition complex_loop :: "memory \<Rightarrow> real list \<Rightarrow> complex \<Rightarrow> nat \<Rightarrow> complex euler_state" where
  "complex_loop junk cfc perturbed_val bound =
     fold (complex_step junk cfc perturbed_val) [1..<bound] (complex_init junk cfc)"

definition complex_offset_sum :: "real list \<Rightarrow> complex \<Rightarrow> nat \<Rightarrow> complex" where
  "complex_offset_sum offc perturbed_val depth =
     fold (\<lambda>i acc. acc + of_real (offc ! i) * perturbed_val ^ i) [0..<min (length offc) depth] 0"

definition evaluate_complex_on_diagonal :: "memory \<Rightarrow> real list \<Rightarrow> complex \<Rightarrow> nat \<Rightarrow> complex" where
  "evaluate_complex_on_diagonal junk cfc perturbed_val depth =
     (if std_norm perturbed_val = 0 then 0
      else let s = complex_loop junk cfc perturbed_val depth
           in perturbed_val * current_num s / current_denom s)"

definition evaluate_complex_above_diagonal ::
  "memory \<Rightarrow> real list \<Rightarrow> real list \<Rightarrow> complex \<Rightarrow> nat \<Rightarrow> complex" where
  "evaluate_complex_above_diagonal junk cfc offc perturbed_val depth =
     (if std_norm perturbed_val = 0 then 0
      else let s = complex_loop junk cfc perturbed_val depth;
               offset_terms = complex_offset_sum offc perturbed_val depth
           in perturbed_val *
                (offset_terms +
                 perturbed_val ^ min (length offc) depth * current_num s / current_denom s))"

text \<open>Below the diagonal the loop of line 436 runs to \<open>cf_coeffs.size()\<close>, not to \<open>depth\<close>.\<close>

definition evaluate_complex_below_diagonal ::
  "memory \<Rightarrow> real list \<Rightarrow> real list \<Rightarrow> complex \<Rightarrow> nat \<Rightarrow> complex" where
  "evaluate_complex_below_diagonal junk cfc offc perturbed_val depth =
     (if std_norm perturbed_val = 0 then 0
      else let s = complex_loop junk cfc perturbed_val (length cfc);
               offset_terms = complex_offset_sum offc perturbed_val depth
           in perturbed_val /
                (offset_terms +
                 perturbed_val ^ min (length offc) depth * current_num s / current_denom s))"

definition complex_deriv :: "memory \<Rightarrow> ContinuedFraction \<Rightarrow> real \<Rightarrow> real" where
  "complex_deriv junk cf val =
     (let perturbed = Complex val 0 + of_real DERIV_DELTA * \<i>;
          df = (if diagonal_idx cf = 0 then
                  evaluate_complex_on_diagonal junk (cf_coeffs cf) perturbed (degree cf)
                else if diagonal_idx cf > 0 then
                  evaluate_complex_above_diagonal junk (cf_coeffs cf) (offset_coeffs cf)
                    perturbed (degree cf)
                else
                  evaluate_complex_below_diagonal junk (cf_coeffs cf) (offset_coeffs cf)
                    perturbed (degree cf))
      in Im df / DERIV_DELTA)"

subsection \<open>Double arithmetic\<close>

text \<open>
  IEEE 754 binary64, the \<open>double\<close> of the platforms the program is built for: a finite
  value (\<open>Finite x\<close> is a double when \<open>x\<close> is representable; the two zeros are one value,
  no comparison tells them apart), the two infinities and NaN. \<open>DBL_MAX\<close> is
  \<open>std::numeric_limits<double>::max()\<close>. \<open>round64\<close> rounds a real number to the nearest
  double, ties to the even significand; the spacing of the doubles around \<open>x\<close> is
  \<open>2 ^ (e - 52)\<close> for the exponent \<open>e\<close> of \<open>x\<close>, at least \<open>-1022\<close>, and a result beyond
  \<open>DBL_MAX\<close> is an infinity.
\<close>

datatype double = Finite real | PlusInf | MinusInf | NaN

definition DBL_MAX :: real where
  "DBL_MAX = (2 ^ 53 - 1) * 2 ^ 971"

definition round_half_even :: "real \<Rightarrow> int" where
  "round_half_even r =
     (let f = \<lfloor>r\<rfloor> in
      if r - of_int f < 1 / 2 then f
      else if 1 / 2 < r - of_int f then f + 1
      else if even f then f else f + 1)"

definition round64 :: "real \<Rightarrow> double" where
  "round64 x =
     (if x = 0 then Finite 0
      else
        let e = max \<lfloor>log 2 \<bar>x\<bar>\<rfloor> (- 1022);
            u = 2 powi (e - 52);
            y = u * of_int (round_half_even (x / u))
        in if DBL_MAX < \<bar>y\<bar> then (if 0 < x then PlusInf else MinusInf) else Finite y)"

text \<open>\<open>a - b\<close> and \<open>a < b\<close> on doubles.\<close>

fun ieee_sub :: "double \<Rightarrow> double \<Rightarrow> double" where
  "ieee_sub (Finite x) (Finite y) = round64 (x - y)"
| "ieee_sub NaN b = NaN"
| "ieee_sub a NaN = NaN"
| "ieee_sub PlusInf PlusInf = NaN"
| "ieee_sub MinusInf MinusInf = NaN"
| "ieee_sub PlusInf b = PlusInf"
| "ieee_sub MinusInf b = MinusInf"
| "ieee_sub (Finite x) PlusInf = MinusInf"
| "ieee_sub (Finite x) MinusInf = PlusInf"

fun ieee_lt :: "double \<Rightarrow> double \<Rightarrow> bool" where
  "ieee_lt (Finite x) (Finite y) = (x < y)"
| "ieee_lt NaN b = False"
| "ieee_lt a NaN = False"
| "ieee_lt MinusInf MinusInf = False"
| "ieee_lt MinusInf b = True"
| "ieee_lt a PlusInf = (a \<noteq> PlusInf)"
| "ieee_lt a b = False"

text \<open>
  \<open>fabs(x/y)\<close> for the two loop tests of the bisection: a division by zero is infinite,
  \<open>0/0\<close> is NaN; a quotient that exists is taken without rounding.
\<close>

definition fabs_quotient :: "real \<Rightarrow> real \<Rightarrow> double" where
  "fabs_quotient x y =
     (if y = 0 then (if x = 0 then NaN else PlusInf) else Finite \<bar>x / y\<bar>)"

text \<open>
  The sum and the difference of two doubles as the machine computes them, for the grid
  loop of \<open>extrapolate_distinct\<close> and the stability check on its estimates. The source
  does not fix the rounded result, so the two operations are parameters of these
  functions; \<open>exact_arith\<close> is the arithmetic of a run in which every sum and difference
  is representable and no rounding takes place.
\<close>

record double_arith =
  dadd :: "real \<Rightarrow> real \<Rightarrow> real"
  dsub :: "real \<Rightarrow> real \<Rightarrow> real"

definition exact_arith :: double_arith where
  "exact_arith = \<lparr>dadd = (+), dsub = (-)\<rparr>"

subsection \<open>Extrapolation on a grid\<close>

text \<open>
  \<open>extrapolate_distinct\<close>: the loop \<open>for (double t = step_size; t <= max_value; t += step_size)\<close>
  need not end, so it is a partial function and \<open>None\<close> is the run that never returns.
  \<open>hist_sum\<close> is \<open>accumulate(counts_hist.begin(), counts_hist.end(), 0.0)\<close>, a sum from
  the left.
\<close>

partial_function (option) extrapolate_loop ::
  "double_arith \<Rightarrow> memory \<Rightarrow> ContinuedFraction \<Rightarrow> real \<Rightarrow> real \<Rightarrow> real \<Rightarrow> real \<Rightarrow> real list
     \<Rightarrow> real list option" where
  "extrapolate_loop da junk cf hist_sum max_value step_size t estimates =
     (if t \<le> max_value
      then extrapolate_loop da junk cf hist_sum max_value step_size (dadd da t step_size)
             (estimates @ [dadd da hist_sum (cf_eval junk cf t)])
      else Some estimates)"

declare extrapolate_loop.simps [code]

definition extrapolate_distinct ::
  "double_arith \<Rightarrow> memory \<Rightarrow> ContinuedFraction \<Rightarrow> real list \<Rightarrow> real \<Rightarrow> real \<Rightarrow> real list option" where
  "extrapolate_distinct da junk cf counts_hist max_value step_size =
     (let hist_sum = fold (\<lambda>x acc. dadd da acc x) counts_hist 0
      in extrapolate_loop da junk cf hist_sum max_value step_size step_size [hist_sum])"

subsection \<open>Bisection on the derivative\<close>

definition movement :: "real \<Rightarrow> real \<Rightarrow> double" where
  "movement a b = fabs_quotient (a - b) (max a b)"

record bisect_state =
  val_low :: real
  deriv_low :: real
  val_high :: real
  deriv_high :: real
  val_mid :: real
  deriv_mid :: real
  diff :: double
  prev_deriv :: real

text \<open>The body of the loop of lines 580-594.\<close>

definition bisect_step :: "memory \<Rightarrow> ContinuedFraction \<Rightarrow> bisect_state \<Rightarrow> bisect_state" where
  "bisect_step junk cf s =
     (let vm = (val_low s + val_high s) / 2;
          dm = complex_deriv junk cf vm;
          narrow_high = ((dm > 0 \<and> deriv_low s < 0) \<or> (dm < 0 \<and> deriv_low s > 0));
          vh = (if narrow_high then vm else val_high s);
          vl = (if narrow_high then val_low s else vm)
      in \<lparr>val_low = vl, deriv_low = complex_deriv junk cf vl,
          val_high = vh, deriv_high = complex_deriv junk cf vh,
          val_mid = vm, deriv_mid = dm,
          diff = fabs_quotient (prev_deriv s - dm) (prev_deriv s),
          prev_deriv = dm\<rparr>)"

text \<open>
  The loop of line 580, \<open>while (diff > TOLERANCE && movement(val_low, val_high) > TOLERANCE)\<close>;
  \<open>a > b\<close> is \<open>ieee_lt b a\<close>.
\<close>

partial_function (option) bisect_loop ::
  "memory \<Rightarrow> ContinuedFraction \<Rightarrow> bisect_state \<Rightarrow> real option" where
  "bisect_loop junk cf s =
     (if ieee_lt (Finite TOLERANCE) (diff s) \<and>
         ieee_lt (Finite TOLERANCE) (movement (val_low s) (val_high s))
      then bisect_loop junk cf (bisect_step junk cf s)
      else Some (val_mid s))"

declare bisect_loop.simps [code]

definition bisect_init :: "memory \<Rightarrow> ContinuedFraction \<Rightarrow> real \<Rightarrow> real \<Rightarrow> bisect_state" where
  "bisect_init junk cf val prev_val =
     \<lparr>val_low = prev_val, deriv_low = complex_deriv junk cf prev_val,
      val_high = val, deriv_high = complex_deriv junk cf val,
      val_mid = (val - prev_val) / 2, deriv_mid = DBL_MAX,
      diff = Finite DBL_MAX, prev_deriv = DBL_MAX\<rparr>"

definition locate_zero_cf_deriv :: "memory \<Rightarrow> ContinuedFraction \<Rightarrow> real \<Rightarrow> real \<Rightarrow> real option" where
  "locate_zero_cf_deriv junk cf val prev_val = bisect_loop junk cf (bisect_init junk cf val prev_val)"

subsection \<open>ContinuedFractionApproximation\<close>

record ContinuedFractionApproximation =
  approx_diagonal_idx :: int
  max_terms :: nat
  step_size :: real
  max_value :: real

definition MIN_ALLOWED_DEGREE :: nat where
  "MIN_ALLOWED_DEGREE = 6"

text \<open>\<open>local_max\<close>: the parameters \<open>upper_bound\<close> and \<open>deriv_upper\<close> are not used by the body.\<close>

partial_function (option) local_max_loop ::
  "memory \<Rightarrow> ContinuedFractionApproximation \<Rightarrow> ContinuedFraction \<Rightarrow> real \<Rightarrow> real \<Rightarrow> real option" where
  "local_max_loop junk cfa cf val current_max =
     (if val \<le> max_value cfa
      then (case locate_zero_cf_deriv junk cf val (val - step_size cfa) of
              None \<Rightarrow> None
            | Some x \<Rightarrow>
                local_max_loop junk cfa cf (val + step_size cfa) (max current_max (cf_eval junk cf x)))
      else Some current_max)"

declare local_max_loop.simps [code]

definition local_max ::
  "memory \<Rightarrow> ContinuedFractionApproximation \<Rightarrow> ContinuedFraction \<Rightarrow> real \<Rightarrow> real \<Rightarrow> real option" where
  "local_max junk cfa cf upper_bound deriv_upper =
     local_max_loop junk cfa cf (step_size cfa) (cf_eval junk cf 0)"

subsection \<open>Stability of an estimate sequence\<close>

text \<open>
  \<open>check_estimates_stability\<close>: the loop runs \<open>i\<close> from 1 and returns \<open>false\<close> at the
  first index where \<open>estimates[i] < estimates[i - 1]\<close> holds or where
  \<open>estimates[i] - estimates[i - 1] > estimates[i - 1] - estimates[i - 2]\<close> holds. The
  comparison \<open>lt\<close> and the subtraction \<open>sub\<close> of the element type are parameters; \<open>a > b\<close>
  is \<open>lt b a\<close>.
\<close>

function stability_loop :: "('d \<Rightarrow> 'd \<Rightarrow> bool) \<Rightarrow> ('d \<Rightarrow> 'd \<Rightarrow> 'd) \<Rightarrow> 'd list \<Rightarrow> nat \<Rightarrow> bool" where
  "stability_loop lt sub estimates i =
     (if i < length estimates then
        (if lt (estimates ! i) (estimates ! (i - 1)) \<or>
            (2 \<le> i \<and> lt (sub (estimates ! (i - 1)) (estimates ! (i - 2)))
                         (sub (estimates ! i) (estimates ! (i - 1))))
         then False
         else stability_loop lt sub estimates (i + 1))
      else True)"
  by pat_completeness auto
termination
  by (relation "measure (\<lambda>(lt, sub, es, i). length es - i)") auto

declare stability_loop.simps [simp del]

definition check_estimates_stability ::
  "('d \<Rightarrow> 'd \<Rightarrow> bool) \<Rightarrow> ('d \<Rightarrow> 'd \<Rightarrow> 'd) \<Rightarrow> 'd list \<Rightarrow> bool" where
  "check_estimates_stability lt sub estimates = stability_loop lt sub estimates 1"

subsection \<open>Selection of the degree\<close>

text \<open>
  \<open>optimal_continued_fraction\<close>. The sum \<open>counts_sum\<close> of lines 641-643 is computed and
  never read, it is left out. The exception of line 662 is the error \<open>FitFailure\<close>.
\<close>

definition adjusted_max_terms :: "ContinuedFractionApproximation \<Rightarrow> nat" where
  "adjusted_max_terms cfa = max_terms cfa - (if max_terms cfa mod 2 = 1 then 1 else 0)"

definition power_series :: "memory \<Rightarrow> real list \<Rightarrow> nat \<Rightarrow> real list" where
  "power_series junk counts_hist local_max_terms =
     map (\<lambda>j. rd junk CountsHist counts_hist (j + 1) * (- 1) ^ (j + 2)) [0..<local_max_terms]"

function optimal_loop ::
  "double_arith \<Rightarrow> memory \<Rightarrow> ContinuedFractionApproximation \<Rightarrow> real list \<Rightarrow> real list \<Rightarrow> nat
     \<Rightarrow> (error + ContinuedFraction) option" where
  "optimal_loop da junk cfa counts_hist ps n_terms =
     (if n_terms \<ge> MIN_ALLOWED_DEGREE then
        (case new_ContinuedFraction junk ps (approx_diagonal_idx cfa) n_terms of
           Inl e \<Rightarrow> Some (Inl e)
         | Inr cf \<Rightarrow>
             (case extrapolate_distinct da junk cf counts_hist (max_value cfa) (step_size cfa) of
                None \<Rightarrow> None
              | Some estimates \<Rightarrow>
                  if check_estimates_stability (<) (dsub da) estimates then Some (Inr cf)
                  else optimal_loop da junk cfa counts_hist ps (n_terms - 2)))
      else Some (Inl FitFailure))"
  by pat_completeness auto
termination
  by (relation "measure (\<lambda>(da, junk, cfa, counts_hist, ps, n_terms). n_terms)")
     (auto simp: MIN_ALLOWED_DEGREE_def)

declare optimal_loop.simps [simp del]

definition optimal_continued_fraction ::
  "double_arith \<Rightarrow> memory \<Rightarrow> ContinuedFractionApproximation \<Rightarrow> real list
     \<Rightarrow> (error + ContinuedFraction) option" where
  "optimal_continued_fraction da junk cfa counts_hist =
     (let local_max_terms = adjusted_max_terms cfa;
          ps = power_series junk counts_hist local_max_terms
      in optimal_loop da junk cfa counts_hist ps local_max_terms)"

subsection \<open>The conservative bound\<close>

text \<open>\<open>lowerbound_librarysize\<close>: the loop of line 695 with the running minimum \<open>best\<close>.\<close>

function lowerbound_loop ::
  "memory \<Rightarrow> ContinuedFractionApproximation \<Rightarrow> real list \<Rightarrow> real \<Rightarrow> real \<Rightarrow> nat \<Rightarrow> real
     \<Rightarrow> (error + real) option" where
  "lowerbound_loop junk cfa ps upper_bound distinct_reads n_terms best =
     (if n_terms > MIN_ALLOWED_DEGREE then
        (case new_ContinuedFraction junk ps (approx_diagonal_idx cfa) n_terms of
           Inl e \<Rightarrow> Some (Inl e)
         | Inr cf \<Rightarrow>
             (case local_max junk cfa cf upper_bound distinct_reads of
                None \<Rightarrow> None
              | Some candidate_best \<Rightarrow>
                  lowerbound_loop junk cfa ps upper_bound distinct_reads (n_terms - 2)
                    (min best candidate_best)))
      else Some (Inr best))"
  by pat_completeness auto
termination
  by (relation "measure (\<lambda>(junk, cfa, ps, upper_bound, distinct_reads, n_terms, best). n_terms)")
     (auto simp: MIN_ALLOWED_DEGREE_def)

declare lowerbound_loop.simps [simp del]

definition lowerbound_librarysize ::
  "memory \<Rightarrow> ContinuedFractionApproximation \<Rightarrow> real list \<Rightarrow> real \<Rightarrow> (error + real) option" where
  "lowerbound_librarysize junk cfa counts_hist upper_bound =
     (let distinct_reads = fold (\<lambda>x acc. acc + x) counts_hist 0;
          local_max_terms = adjusted_max_terms cfa;
          ps = power_series junk counts_hist local_max_terms
      in lowerbound_loop junk cfa ps upper_bound distinct_reads local_max_terms DBL_MAX)"

subsection \<open>Notions used to state the properties\<close>

text \<open>
  The value of the loop variable \<open>t\<close> of a grid loop in round \<open>k\<close>: it starts at
  \<open>step_size\<close> and \<open>step_size\<close> is added to it after every round.
\<close>

primrec grid_point :: "(real \<Rightarrow> real \<Rightarrow> real) \<Rightarrow> real \<Rightarrow> nat \<Rightarrow> real" where
  "grid_point add ss 0 = ss"
| "grid_point add ss (Suc k) = add (grid_point add ss k) ss"

text \<open>A state of Euler's recursion with all six values multiplied by \<open>k\<close>.\<close>

definition scale_state :: "real \<Rightarrow> real euler_state \<Rightarrow> real euler_state" where
  "scale_state k p =
     \<lparr>current_num = k * current_num p, prev_num1 = k * prev_num1 p,
      prev_num2 = k * prev_num2 p, current_denom = k * current_denom p,
      prev_denom1 = k * prev_denom1 p, prev_denom2 = k * prev_denom2 p\<rparr>"

text \<open>
  The degrees \<open>m, m - 2, \<dots>, 6\<close> for an even \<open>m\<close>, largest first, and the test that the
  ContinuedFraction of degree \<open>d\<close> is built and its extrapolated estimates pass
  \<open>check_estimates_stability\<close>.
\<close>

definition tried_degrees :: "nat \<Rightarrow> nat list" where
  "tried_degrees m = rev (filter (\<lambda>d. d mod 2 = 0) [6..<Suc m])"

definition degree_passes ::
  "double_arith \<Rightarrow> memory \<Rightarrow> ContinuedFractionApproximation \<Rightarrow> real list \<Rightarrow> real list \<Rightarrow> nat \<Rightarrow> bool" where
  "degree_passes da junk cfa counts_hist ps d =
     (case new_ContinuedFraction junk ps (approx_diagonal_idx cfa) d of
        Inl e \<Rightarrow> False
      | Inr cf \<Rightarrow>
          (case extrapolate_distinct da junk cf counts_hist (max_value cfa) (step_size cfa) of
             None \<Rightarrow> False
           | Some estimates \<Rightarrow> check_estimates_stability (<) (dsub da) estimates))"

text \<open>
  Two states of the quotient-difference tables agree on the cells that the output can
  depend on: cell \<open>j\<close> of row \<open>r\<close> of the quotient table for \<open>j + 2 r \<le> n\<close>, and of the
  error table for \<open>j + 2 r + 1 \<le> n\<close>, for the rows up to \<open>k\<close>.
\<close>

definition tables_agree :: "nat \<Rightarrow> nat \<Rightarrow> qd_state \<Rightarrow> qd_state \<Rightarrow> bool" where
  "tables_agree n k s t \<longleftrightarrow>
     length (q_table s) = n \<and> length (q_table t) = n \<and>
     length (e_table s) = n \<and> length (e_table t) = n \<and>
     (\<forall>r<n. length (q_table s ! r) = n \<and> length (q_table t ! r) = n \<and>
            length (e_table s ! r) = n \<and> length (e_table t ! r) = n) \<and>
     (\<forall>r j. 1 \<le> r \<and> r \<le> k \<and> j + 2 * r \<le> n \<longrightarrow> q_table s ! r ! j = q_table t ! r ! j) \<and>
     (\<forall>r j. r \<le> k \<and> j + 2 * r + 1 \<le> n \<longrightarrow> e_table s ! r ! j = e_table t ! r ! j)"

section \<open>Properties\<close>

subsection \<open>Helper lemmas on the quotient-difference tables\<close>

lemma quotdiff_algorithm_Inr_iff:
  "(\<exists>r. quotdiff_algorithm junk ps c0 = Inr r) \<longleftrightarrow> 2 \<le> length ps"
  by (auto simp: quotdiff_algorithm_def Let_def)

lemma quotdiff_algorithm_length:
  "quotdiff_algorithm junk ps c0 = Inr r \<Longrightarrow> length (cf_out r) = length c0 + length ps"
  by (auto simp: quotdiff_algorithm_def Let_def qd_output_def split: if_splits)

lemma holding_eq_drop: "map (\<lambda>i. xs ! i) [k..<length xs] = drop k xs"
  by (rule nth_equalityI) auto

lemma offset_eq_take: "k \<le> length xs \<Longrightarrow> map (\<lambda>i. rd junk v xs i) [0..<k] = take k xs"
  by (rule nth_equalityI) (auto simp: rd_def)

lemma new_ContinuedFraction_above:
  assumes "0 < di" "nat di \<le> length ps"
      and "quotdiff_algorithm junk (drop (nat di) ps) [] = Inr r"
  shows "new_ContinuedFraction junk ps di dg =
           Inr \<lparr>ps_coeffs = ps, cf_coeffs = take (nat di) ps, offset_coeffs = cf_out r,
                diagonal_idx = di, degree = dg\<rparr>"
  using assms
  by (simp add: new_ContinuedFraction_def quotdiff_above_diagonal_def holding_eq_drop
        offset_eq_take)

lemma quotdiff_three_terms:
  "map_sum id cf_out (quotdiff_algorithm junk [1, 2, 6] []) = Inr [1, - 2, - 1]"
  by (simp add: quotdiff_algorithm_def qd_init_def qd_output_def q_row1_def e_row1_def
        write_row_def rd_def qd_step_def q_row_def e_row_def upt_rec)

lemma new_ContinuedFraction_above_example:
  "new_ContinuedFraction junk [1, 1, 2, 6] 1 dg =
     Inr \<lparr>ps_coeffs = [1, 1, 2, 6], cf_coeffs = [1], offset_coeffs = [1, - 2, - 1],
          diagonal_idx = 1, degree = dg\<rparr>"
proof -
  obtain r where r: "quotdiff_algorithm junk (drop (nat 1) [1, 1, 2, 6]) [] = Inr r"
    using quotdiff_algorithm_Inr_iff[of junk "drop (nat 1) [1, 1, 2, 6]" "[]"] by auto
  have "cf_out r = [1, - 2, - 1]"
    using quotdiff_three_terms[of junk] r by simp
  then show ?thesis
    using new_ContinuedFraction_above[of 1 "[1, 1, 2, 6]" junk r dg] r by simp
qed

lemma reads_qd_step: "set (reads s) \<subseteq> set (reads (qd_step junk depth i s))"
  by (simp add: qd_step_def Let_def)

lemma reads_fold_qd_step:
  "set (reads s) \<subseteq> set (reads (fold (qd_step junk depth) is s))"
proof (induction "is" arbitrary: s)
  case Nil
  show ?case by simp
next
  case (Cons i "is")
  have "set (reads s) \<subseteq> set (reads (qd_step junk depth i s))"
    by (rule reads_qd_step)
  also have "\<dots> \<subseteq> set (reads (fold (qd_step junk depth) is (qd_step junk depth i s)))"
    by (rule Cons.IH)
  finally show ?case by simp
qed

lemma reads_qd_init:
  assumes "0 < depth"
  shows "(PsCoeffs, depth) \<in> set (reads (qd_init junk ps depth))"
proof -
  from assms have "depth - 1 \<in> set [0..<depth]" by simp
  then have "(PsCoeffs, (depth - 1) + 1) \<in> set (concat (map snd (q_row1 junk ps depth)))"
    unfolding q_row1_def by (auto simp: o_def intro!: bexI[of _ "depth - 1"])
  with assms show ?thesis by (simp add: qd_init_def Let_def)
qed

lemma reads_qd_step_behind:
  assumes "0 < depth"
  shows "(QTable (i - 1), depth) \<in> set (reads (qd_step junk depth i s))"
proof -
  from assms have "depth - 1 \<in> set [0..<depth]" by simp
  then have "(QTable (i - 1), (depth - 1) + 1) \<in>
      set (concat (map snd (q_row junk i (q_table s ! (i - 1)) (e_table s ! (i - 1)) depth)))"
    unfolding q_row_def by (auto simp: o_def intro!: bexI[of _ "depth - 1"])
  with assms show ?thesis by (simp add: qd_step_def Let_def)
qed

subsection \<open>The constructor above the diagonal\<close>

text \<open>
  Claim C1 says that for a positive diagonal index \<open>k\<close> the constructor stores the first
  \<open>k\<close> power-series coefficients as offset coefficients and the quotient-difference
  output for the remaining suffix as continued-fraction coefficients. The code does the
  opposite: the call of line 150 passes the two members in the wrong order, so
  \<open>cf_coeffs\<close> holds the first \<open>k\<close> power-series coefficients and \<open>offset_coeffs\<close> holds the
  quotient-difference output of the suffix.
\<close>

theorem constructor_above_diagonal_swapped:
  assumes "0 < di" and "nat di \<le> length ps"
      and "quotdiff_algorithm junk (drop (nat di) ps) [] = Inr r"
  shows "\<exists>cf. new_ContinuedFraction junk ps di dg = Inr cf \<and>
              cf_coeffs cf = take (nat di) ps \<and> offset_coeffs cf = cf_out r"
  using new_ContinuedFraction_above[OF assms, of dg] by simp

theorem constructor_above_diagonal_swapped_witness:
  "\<exists>cf. new_ContinuedFraction (\<lambda>v i. 0) [1, 1, 2, 6] 1 4 = Inr cf \<and>
        cf_coeffs cf = [1] \<and> offset_coeffs cf = [1, - 2, - 1] \<and>
        offset_coeffs cf \<noteq> take 1 [1, 1, 2, 6]"
proof -
  let ?junk = "(\<lambda>v i. 0) :: memory"
  obtain r where r: "quotdiff_algorithm ?junk (drop (nat 1) [1, 1, 2, 6]) [] = Inr r"
    using quotdiff_algorithm_Inr_iff[of ?junk "drop (nat 1) [1, 1, 2, 6]" "[]"] by auto
  have out: "cf_out r = [1, - 2, - 1]"
    using quotdiff_three_terms[of ?junk] r by simp
  have "(0::int) < 1" and "nat 1 \<le> length [1, 1, 2, 6 :: real]" by simp_all
  from constructor_above_diagonal_swapped[OF this r, of 4] out
  show ?thesis by auto
qed

text \<open>
  Claim C2 says that the number of offset coefficients of a constructed ContinuedFraction
  is the absolute value of its diagonal index. This holds on and below the diagonal.
  Above the diagonal the swapped call of line 150 leaves the quotient-difference output
  in \<open>offset_coeffs\<close>, whose length is the length of the series minus the diagonal index.
\<close>

theorem constructor_offset_count:
  assumes "new_ContinuedFraction junk ps di dg = Inr cf"
  shows "length (offset_coeffs cf) = (if 0 < di then length ps - nat di else nat \<bar>di\<bar>)"
  using assms
  by (auto simp: new_ContinuedFraction_def quotdiff_above_diagonal_def
        quotdiff_below_diagonal_def Let_def holding_eq_drop
        dest!: quotdiff_algorithm_length split: if_splits sum.splits)

theorem constructor_offset_count_witness:
  "\<exists>cf. new_ContinuedFraction (\<lambda>v i. 0) [1, 1, 2, 6] 1 4 = Inr cf \<and>
        length (offset_coeffs cf) = 3 \<and> diagonal_idx cf = 1"
  using constructor_offset_count[OF new_ContinuedFraction_above_example[of "\<lambda>v i. 0" 4]]
    new_ContinuedFraction_above_example[of "\<lambda>v i. 0" 4]
  by simp

subsection \<open>The stability check\<close>

lemma floor_log2_eq:
  fixes x :: real and e :: int
  assumes "2 powi e \<le> x" "x < 2 powi (e + 1)"
  shows "\<lfloor>log 2 x\<rfloor> = e"
proof -
  have "(0::real) < 2 powi e" by simp
  with assms(1) have pos: "0 < x" by linarith
  have a: "of_int e \<le> log 2 x"
    using assms(1) pos by (simp add: le_log_iff powr_real_of_int')
  have eq: "(2::real) powr (of_int e + 1) = 2 powi (e + 1)"
    using powr_real_of_int'[of 2 "e + 1"] by simp
  have b: "log 2 x < of_int e + 1"
    using assms(2) pos by (simp add: log_less_iff eq)
  show ?thesis using a b by (simp add: floor_unique)
qed

lemma round64_binade:
  fixes x :: real and e :: int
  assumes "2 powi e \<le> \<bar>x\<bar>" "\<bar>x\<bar> < 2 powi (e + 1)" "- 1022 \<le> e"
  shows "round64 x =
     (if DBL_MAX < \<bar>2 powi (e - 52) * of_int (round_half_even (x / 2 powi (e - 52)))\<bar>
      then (if 0 < x then PlusInf else MinusInf)
      else Finite (2 powi (e - 52) * of_int (round_half_even (x / 2 powi (e - 52)))))"
proof -
  have "(0::real) < 2 powi e" by simp
  with assms(1) have "0 < \<bar>x\<bar>" by linarith
  then have nz: "x \<noteq> 0" by simp
  have "\<lfloor>log 2 \<bar>x\<bar>\<rfloor> = e" by (rule floor_log2_eq[OF assms(1,2)])
  then show ?thesis using nz assms(3) by (simp add: round64_def Let_def max_def)
qed

lemma stability_loop_iff:
  "1 \<le> i \<Longrightarrow> stability_loop lt sub es i \<longleftrightarrow>
     (\<forall>k. i \<le> k \<and> k < length es \<longrightarrow> \<not> lt (es ! k) (es ! (k - 1))) \<and>
     (\<forall>k. i \<le> k \<and> 2 \<le> k \<and> k < length es \<longrightarrow>
          \<not> lt (sub (es ! (k - 1)) (es ! (k - 2))) (sub (es ! k) (es ! (k - 1))))"
proof (induction lt sub es i rule: stability_loop.induct)
  case (1 lt sub es i)
  show ?case
  proof (cases "i < length es")
    case False
    then show ?thesis by (subst stability_loop.simps) auto
  next
    case True
    let ?bad = "lt (es ! i) (es ! (i - 1)) \<or>
                (2 \<le> i \<and> lt (sub (es ! (i - 1)) (es ! (i - 2))) (sub (es ! i) (es ! (i - 1))))"
    show ?thesis
    proof (cases ?bad)
      case bad: True
      have "\<not> stability_loop lt sub es i"
        by (subst stability_loop.simps) (simp only: True bad if_True not_False_eq_True)
      moreover have "\<not> ((\<forall>k. i \<le> k \<and> k < length es \<longrightarrow> \<not> lt (es ! k) (es ! (k - 1))) \<and>
          (\<forall>k. i \<le> k \<and> 2 \<le> k \<and> k < length es \<longrightarrow>
               \<not> lt (sub (es ! (k - 1)) (es ! (k - 2))) (sub (es ! k) (es ! (k - 1)))))"
        using bad True by (meson order_refl)
      ultimately show ?thesis by blast
    next
      case good: False
      have step: "stability_loop lt sub es i = stability_loop lt sub es (i + 1)"
        by (subst stability_loop.simps) (simp only: True good if_True if_False)
      have ih: "stability_loop lt sub es (i + 1) \<longleftrightarrow>
          (\<forall>k. i + 1 \<le> k \<and> k < length es \<longrightarrow> \<not> lt (es ! k) (es ! (k - 1))) \<and>
          (\<forall>k. i + 1 \<le> k \<and> 2 \<le> k \<and> k < length es \<longrightarrow>
               \<not> lt (sub (es ! (k - 1)) (es ! (k - 2))) (sub (es ! k) (es ! (k - 1))))"
        using "1.IH"[OF True good] by simp
      have split: "\<And>k. i \<le> k \<longleftrightarrow> k = i \<or> i + 1 \<le> k" by auto
      show ?thesis unfolding step ih using good by (auto simp: split)
    qed
  qed
qed

lemma round64_example_values:
  "round64 2 = Finite 2"
  "round64 1 = Finite 1"
  "round64 (1 / 2) = Finite (1 / 2)"
  "round64 (- 1) = Finite (- 1)"
  "round64 3 = Finite 3"
  "round64 4 = Finite 4"
  "round64 18014398509481983 = Finite 18014398509481984"
  "round64 18014398509481984 = Finite 18014398509481984"
proof -
  show "round64 2 = Finite 2"
    by (subst round64_binade[of 1]) (simp_all add: round_half_even_def Let_def DBL_MAX_def)
  show "round64 1 = Finite 1"
    by (subst round64_binade[of 0]) (simp_all add: round_half_even_def Let_def DBL_MAX_def)
  show "round64 (1 / 2) = Finite (1 / 2)"
    by (subst round64_binade[of "-1"]) (simp_all add: round_half_even_def Let_def DBL_MAX_def)
  show "round64 (- 1) = Finite (- 1)"
    by (subst round64_binade[of 0]) (simp_all add: round_half_even_def Let_def DBL_MAX_def)
  show "round64 3 = Finite 3"
    by (subst round64_binade[of 1]) (simp_all add: round_half_even_def Let_def DBL_MAX_def)
  show "round64 4 = Finite 4"
    by (subst round64_binade[of 2]) (simp_all add: round_half_even_def Let_def DBL_MAX_def)
  show "round64 18014398509481983 = Finite 18014398509481984"
    by (subst round64_binade[of 53]) (simp_all add: round_half_even_def Let_def DBL_MAX_def)
  show "round64 18014398509481984 = Finite 18014398509481984"
    by (subst round64_binade[of 54]) (simp_all add: round_half_even_def Let_def DBL_MAX_def)
qed

text \<open>
  Claim C4 says that \<open>check_estimates_stability\<close> returns true if and only if the sequence
  is non-decreasing and no increment \<open>estimates[i] - estimates[i - 1]\<close> is larger than the
  increment before it. The code compares the differences as the machine computes them:
  on the doubles \<open>1, 2^54, 2^55\<close> the first increment \<open>2^54 - 1\<close> is rounded to \<open>2^54\<close>,
  the second is \<open>2^54\<close>, and the check returns true although the increment grows.
  Amended claim: for every comparison and subtraction of the element type,
  \<open>check_estimates_stability\<close> returns true if and only if no element is less than the
  element before it and, from index 2 on, no computed difference
  \<open>estimates[i] - estimates[i - 1]\<close> is greater than the computed difference before it; on the
  doubles \<open>[10, 12, 13, 13.5]\<close> it is true, on \<open>[10, 12, 11]\<close> and on \<open>[10, 12, 15, 19]\<close> it is
  false.
\<close>

theorem check_estimates_stability_computed_differences:
  "(check_estimates_stability lt sub es \<longleftrightarrow>
      (\<forall>i. 1 \<le> i \<and> i < length es \<longrightarrow> \<not> lt (es ! i) (es ! (i - 1))) \<and>
      (\<forall>i. 2 \<le> i \<and> i < length es \<longrightarrow>
           \<not> lt (sub (es ! (i - 1)) (es ! (i - 2))) (sub (es ! i) (es ! (i - 1))))) \<and>
   check_estimates_stability ieee_lt ieee_sub [Finite 10, Finite 12, Finite 13, Finite 13.5] \<and>
   \<not> check_estimates_stability ieee_lt ieee_sub [Finite 10, Finite 12, Finite 11] \<and>
   \<not> check_estimates_stability ieee_lt ieee_sub [Finite 10, Finite 12, Finite 15, Finite 19]"
proof -
  have "(\<forall>k. 1 \<le> k \<and> 2 \<le> k \<and> k < length es \<longrightarrow>
          \<not> lt (sub (es ! (k - 1)) (es ! (k - 2))) (sub (es ! k) (es ! (k - 1)))) \<longleftrightarrow>
        (\<forall>i. 2 \<le> i \<and> i < length es \<longrightarrow>
           \<not> lt (sub (es ! (i - 1)) (es ! (i - 2))) (sub (es ! i) (es ! (i - 1))))"
    by (metis le_trans one_le_numeral)
  then have a: "check_estimates_stability lt sub es \<longleftrightarrow>
      (\<forall>i. 1 \<le> i \<and> i < length es \<longrightarrow> \<not> lt (es ! i) (es ! (i - 1))) \<and>
      (\<forall>i. 2 \<le> i \<and> i < length es \<longrightarrow>
           \<not> lt (sub (es ! (i - 1)) (es ! (i - 2))) (sub (es ! i) (es ! (i - 1))))"
    unfolding check_estimates_stability_def stability_loop_iff[OF order_refl] by blast
  have b: "check_estimates_stability ieee_lt ieee_sub [Finite 10, Finite 12, Finite 13, Finite 13.5]"
    by (simp add: check_estimates_stability_def stability_loop.simps round64_example_values)
  have c: "\<not> check_estimates_stability ieee_lt ieee_sub [Finite 10, Finite 12, Finite 11]"
    by (simp add: check_estimates_stability_def stability_loop.simps round64_example_values)
  have d: "\<not> check_estimates_stability ieee_lt ieee_sub [Finite 10, Finite 12, Finite 15, Finite 19]"
    by (simp add: check_estimates_stability_def stability_loop.simps round64_example_values)
  show ?thesis
    by (rule conjI[OF a conjI[OF b conjI[OF c d]]])
qed

theorem check_estimates_stability_computed_differences_witness:
  "check_estimates_stability ieee_lt ieee_sub [Finite 1, Finite 3, Finite 4] \<and>
   (1::nat) \<le> 2 \<and> (2::nat) < length [Finite 1, Finite 3, Finite 4] \<and>
   \<not> ieee_lt ([Finite 1, Finite 3, Finite 4] ! 2) ([Finite 1, Finite 3, Finite 4] ! (2 - 1)) \<and>
   \<not> ieee_lt (ieee_sub ([Finite 1, Finite 3, Finite 4] ! (2 - 1)) ([Finite 1, Finite 3, Finite 4] ! (2 - 2)))
             (ieee_sub ([Finite 1, Finite 3, Finite 4] ! 2) ([Finite 1, Finite 3, Finite 4] ! (2 - 1)))"
proof -
  let ?es = "[Finite 1, Finite 3, Finite 4]"
  have c: "check_estimates_stability ieee_lt ieee_sub ?es"
    by (simp add: check_estimates_stability_def stability_loop.simps round64_example_values)
  note both = iffD1[OF conjunct1[OF check_estimates_stability_computed_differences[of ieee_lt ieee_sub ?es]] c]
  have r: "(1::nat) \<le> 2 \<and> (2::nat) < length ?es" by simp
  have r2: "(2::nat) \<le> 2 \<and> (2::nat) < length ?es" by simp
  note m = mp[OF spec[OF conjunct1[OF both], of 2] r]
  note k = mp[OF spec[OF conjunct2[OF both], of 2] r2]
  show ?thesis
    by (rule conjI[OF c conjI[OF conjunct1[OF r] conjI[OF conjunct2[OF r] conjI[OF m k]]]])
qed

text \<open>
  The doubles \<open>1, 2^54, 2^55\<close> pass the check, and their second increment is larger than
  their first.
\<close>

theorem check_estimates_stability_rounded_increment:
  "check_estimates_stability ieee_lt ieee_sub [Finite 1, Finite (2 ^ 54), Finite (2 ^ 55)] \<and>
   (2 ^ 54 - 1 :: real) < 2 ^ 55 - 2 ^ 54"
  by (simp add: check_estimates_stability_def stability_loop.simps round64_example_values)

subsection \<open>Reads of the quotient-difference algorithm\<close>

text \<open>
  Claim C10 says that for a series of length \<open>n \<ge> 2\<close> every read of
  \<open>quotdiff_algorithm\<close> is within bounds. The code reads behind the end: the loop of
  line 75 runs \<open>i\<close> up to \<open>n - 1\<close> and reads \<open>ps_coeffs[i + 1]\<close>, that is \<open>ps_coeffs[n]\<close>, and
  for \<open>n \<ge> 3\<close> the loop of line 82 runs \<open>j\<close> up to \<open>n - 1\<close> and reads column \<open>n\<close> of the
  row before.
\<close>

theorem quotdiff_reads_behind_end:
  assumes "2 \<le> length ps"
  shows "\<exists>r. quotdiff_algorithm junk ps c0 = Inr r \<and>
             (PsCoeffs, length ps) \<in> set (qd_reads r) \<and>
             \<not> in_bounds (length ps) (PsCoeffs, length ps) \<and>
             (3 \<le> length ps \<longrightarrow> (QTable 1, length ps) \<in> set (qd_reads r))"
proof -
  let ?n = "length ps"
  let ?s = "fold (qd_step junk ?n) [2..<?n] (qd_init junk ps ?n)"
  let ?r = "\<lparr>cf_out = c0 @ [ps ! 0] @ map fst (qd_output ?s ?n),
             qd_reads = reads ?s @ [(PsCoeffs, 0)] @ concat (map snd (qd_output ?s ?n))\<rparr>"
  have eq: "quotdiff_algorithm junk ps c0 = Inr ?r"
    using assms by (cases ps) (auto simp: quotdiff_algorithm_def Let_def)
  have "(PsCoeffs, ?n) \<in> set (reads (qd_init junk ps ?n))"
    by (rule reads_qd_init) (use assms in linarith)
  then have ps_read: "(PsCoeffs, ?n) \<in> set (reads ?s)"
    using reads_fold_qd_step by blast
  have tbl: "(QTable 1, ?n) \<in> set (reads ?s)" if "3 \<le> ?n"
  proof -
    have upt: "[2..<?n] = 2 # [3..<?n]" using that by (simp add: upt_rec)
    have "(QTable (2 - 1), ?n) \<in> set (reads (qd_step junk ?n 2 (qd_init junk ps ?n)))"
      by (rule reads_qd_step_behind) (use that in linarith)
    then have "(QTable 1, ?n) \<in> set (reads (fold (qd_step junk ?n) [3..<?n]
                 (qd_step junk ?n 2 (qd_init junk ps ?n))))"
      using reads_fold_qd_step by fastforce
    then show ?thesis by (simp add: upt)
  qed
  show ?thesis
    unfolding eq using ps_read tbl by simp
qed

theorem quotdiff_reads_behind_end_witness:
  "\<exists>r. quotdiff_algorithm (\<lambda>v i. 0) [1, 2, 6] [] = Inr r \<and>
       (PsCoeffs, 3) \<in> set (qd_reads r) \<and> \<not> in_bounds 3 (PsCoeffs, 3) \<and>
       (QTable 1, 3) \<in> set (qd_reads r)"
  using quotdiff_reads_behind_end[of "[1, 2, 6]" "\<lambda>v i. 0" "[]"]
  by (simp add: numeral_3_eq_3)

subsection \<open>Reads behind the end do not reach the result\<close>

text \<open>
  The values read behind the end of \<open>ps_coeffs\<close> and of the table rows only reach table
  cells that the output does not use: the coefficients computed by
  \<open>quotdiff_algorithm\<close>, and the ContinuedFraction built from a series with at least
  \<open>|di| + 2\<close> coefficients, are the same for every content of the memory behind the
  vectors.
\<close>

lemma write_row_full:
  "length cells = length old \<Longrightarrow> write_row old cells = map fst cells"
  by (simp add: write_row_def)

lemma length_q_row [simp]: "length (q_row junk i qp ep n) = n"
  by (simp add: q_row_def)

lemma length_e_row [simp]: "length (e_row junk i q ep n) = n"
  by (simp add: e_row_def)

lemma q_row_nth:
  "j < n \<Longrightarrow> fst (q_row junk i qp ep n ! j) =
     rd junk (QTable (i - 1)) qp (j + 1) * rd junk (ETable (i - 1)) ep (j + 1)
       / rd junk (ETable (i - 1)) ep j"
  by (simp add: q_row_def)

lemma e_row_nth:
  "j < n \<Longrightarrow> fst (e_row junk i q ep n ! j) =
     rd junk (QTable i) q (j + 1) - rd junk (QTable i) q j + rd junk (ETable (i - 1)) ep (j + 1)"
  by (simp add: e_row_def)

lemma rd_in_range: "i < length xs \<Longrightarrow> rd junk v xs i = xs ! i"
  by (simp add: rd_def)

lemma qd_step_tables:
  assumes "length (q_table s ! i) = n" "length (e_table s ! i) = n"
  shows "q_table (qd_step junk n i s) =
           (q_table s)[i := map fst (q_row junk i (q_table s ! (i - 1)) (e_table s ! (i - 1)) n)]"
    and "e_table (qd_step junk n i s) =
           (e_table s)[i := map fst (e_row junk i
              ((q_table s)[i := map fst (q_row junk i (q_table s ! (i - 1)) (e_table s ! (i - 1)) n)] ! i)
              (e_table s ! (i - 1)) n)]"
  using assms by (simp_all add: qd_step_def Let_def write_row_full)


lemma qd_step_agree:
  assumes ag: "tables_agree n k s t" and k1: "1 \<le> k" and kn: "k + 1 < n"
  shows "tables_agree n (k + 1) (qd_step junk n (k + 1) s) (qd_step junk' n (k + 1) t)"
proof -
  let ?i = "k + 1"
  from ag have len: "length (q_table s) = n" "length (q_table t) = n"
      "length (e_table s) = n" "length (e_table t) = n"
    and rows: "\<And>r. r < n \<Longrightarrow> length (q_table s ! r) = n \<and> length (q_table t ! r) = n \<and>
            length (e_table s ! r) = n \<and> length (e_table t ! r) = n"
    and qa: "\<And>r j. 1 \<le> r \<Longrightarrow> r \<le> k \<Longrightarrow> j + 2 * r \<le> n \<Longrightarrow>
               q_table s ! r ! j = q_table t ! r ! j"
    and ea: "\<And>r j. r \<le> k \<Longrightarrow> j + 2 * r + 1 \<le> n \<Longrightarrow>
               e_table s ! r ! j = e_table t ! r ! j"
    unfolding tables_agree_def by blast+
  have kr: "k < n" using kn by simp
  let ?qs = "map fst (q_row junk ?i (q_table s ! k) (e_table s ! k) n)"
  let ?qt = "map fst (q_row junk' ?i (q_table t ! k) (e_table t ! k) n)"
  let ?es = "map fst (e_row junk ?i ?qs (e_table s ! k) n)"
  let ?et = "map fst (e_row junk' ?i ?qt (e_table t ! k) n)"
  have lq: "length ?qs = n" "length ?qt = n" "length ?es = n" "length ?et = n" by simp_all
  have A: "?qs ! j = ?qt ! j" if "j + 2 * ?i \<le> n" for j
  proof -
    from that have j: "j < n" "j + 1 < n" by simp_all
    have r1: "q_table s ! k ! (j + 1) = q_table t ! k ! (j + 1)"
      using that k1 by (intro qa) simp_all
    have r2: "e_table s ! k ! (j + 1) = e_table t ! k ! (j + 1)"
      using that by (intro ea) simp_all
    have r3: "e_table s ! k ! j = e_table t ! k ! j"
      using that by (intro ea) simp_all
    have "?qs ! j = q_table s ! k ! (j + 1) * e_table s ! k ! (j + 1) / e_table s ! k ! j"
      using j rows[OF kr] by (simp add: q_row_nth rd_in_range)
    moreover
    have "?qt ! j = q_table t ! k ! (j + 1) * e_table t ! k ! (j + 1) / e_table t ! k ! j"
      using j rows[OF kr] by (simp add: q_row_nth rd_in_range)
    ultimately show ?thesis using r1 r2 r3 by simp
  qed
  have B: "?es ! j = ?et ! j" if "j + 2 * ?i + 1 \<le> n" for j
  proof -
    from that have j: "j < n" "j + 1 < n" by simp_all
    have r1: "?qs ! (j + 1) = ?qt ! (j + 1)" using that by (intro A) simp
    have r2: "?qs ! j = ?qt ! j" using that by (intro A) simp
    have r3: "e_table s ! k ! (j + 1) = e_table t ! k ! (j + 1)"
      using that by (intro ea) simp_all
    have "?es ! j = ?qs ! (j + 1) - ?qs ! j + e_table s ! k ! (j + 1)"
      using j rows[OF kr] lq(1) by (simp add: e_row_nth rd_in_range)
    moreover have "?et ! j = ?qt ! (j + 1) - ?qt ! j + e_table t ! k ! (j + 1)"
      using j rows[OF kr] lq(2) by (simp add: e_row_nth rd_in_range)
    ultimately show ?thesis using r1 r2 r3 by simp
  qed
  have in_s: "length (q_table s ! ?i) = n" "length (e_table s ! ?i) = n"
    and in_t: "length (q_table t ! ?i) = n" "length (e_table t ! ?i) = n"
    using rows[OF kn] by simp_all
  have qs': "q_table (qd_step junk n ?i s) = (q_table s)[?i := ?qs]"
    and es': "e_table (qd_step junk n ?i s) = (e_table s)[?i := ?es]"
    using qd_step_tables[OF in_s, of junk] len kn by simp_all
  have qt': "q_table (qd_step junk' n ?i t) = (q_table t)[?i := ?qt]"
    and et': "e_table (qd_step junk' n ?i t) = (e_table t)[?i := ?et]"
    using qd_step_tables[OF in_t, of junk'] len kn by simp_all
  have L: "\<forall>r<n. length ((q_table s)[?i := ?qs] ! r) = n \<and>
      length ((q_table t)[?i := ?qt] ! r) = n \<and>
      length ((e_table s)[?i := ?es] ! r) = n \<and> length ((e_table t)[?i := ?et] ! r) = n"
  proof (intro allI impI)
    fix r assume "r < n"
    then show "length ((q_table s)[?i := ?qs] ! r) = n \<and>
      length ((q_table t)[?i := ?qt] ! r) = n \<and>
      length ((e_table s)[?i := ?es] ! r) = n \<and> length ((e_table t)[?i := ?et] ! r) = n"
      using rows[of r] len lq kn by (simp add: nth_list_update)
  qed
  have Q: "\<forall>r j. 1 \<le> r \<and> r \<le> ?i \<and> j + 2 * r \<le> n \<longrightarrow>
             (q_table s)[?i := ?qs] ! r ! j = (q_table t)[?i := ?qt] ! r ! j"
  proof (intro allI impI)
    fix r j assume h: "1 \<le> r \<and> r \<le> ?i \<and> j + 2 * r \<le> n"
    show "(q_table s)[?i := ?qs] ! r ! j = (q_table t)[?i := ?qt] ! r ! j"
    proof (cases "r = ?i")
      case True
      then show ?thesis using h A[of j] len kn by simp
    next
      case False
      then have "r \<le> k" using h by simp
      then show ?thesis using h False qa[of r j] len kn by (simp add: nth_list_update)
    qed
  qed
  have E: "\<forall>r j. r \<le> ?i \<and> j + 2 * r + 1 \<le> n \<longrightarrow>
             (e_table s)[?i := ?es] ! r ! j = (e_table t)[?i := ?et] ! r ! j"
  proof (intro allI impI)
    fix r j assume h: "r \<le> ?i \<and> j + 2 * r + 1 \<le> n"
    show "(e_table s)[?i := ?es] ! r ! j = (e_table t)[?i := ?et] ! r ! j"
    proof (cases "r = ?i")
      case True
      then show ?thesis using h B[of j] len kn by simp
    next
      case False
      then have "r \<le> k" using h by simp
      then show ?thesis using h False ea[of r j] len kn by (simp add: nth_list_update)
    qed
  qed
  have "length ((q_table s)[?i := ?qs]) = n \<and> length ((q_table t)[?i := ?qt]) = n \<and>
        length ((e_table s)[?i := ?es]) = n \<and> length ((e_table t)[?i := ?et]) = n"
    using len by simp
  with L Q E show ?thesis
    unfolding tables_agree_def qs' es' qt' et' by blast
qed


lemma qd_init_tables:
  assumes "2 \<le> n"
  shows "q_table (qd_init junk ps n) =
           (replicate n (replicate n 0))[1 := map fst (q_row1 junk ps n)]"
    and "e_table (qd_init junk ps n) =
           (replicate n (replicate n 0))
             [1 := map fst (e_row1 junk (map fst (q_row1 junk ps n)) (replicate n 0) n) @ [0]]"
proof -
  have l1: "length (q_row1 junk ps n) = n" by (simp add: q_row1_def)
  have "n - (n - Suc 0) = Suc 0" using assms by simp
  then have d: "drop (n - Suc 0) (replicate n (0::real)) = [0]"
    by (simp add: drop_replicate)
  show "q_table (qd_init junk ps n) =
           (replicate n (replicate n 0))[1 := map fst (q_row1 junk ps n)]"
    using assms by (simp add: qd_init_def Let_def write_row_def l1)
  show "e_table (qd_init junk ps n) =
           (replicate n (replicate n 0))
             [1 := map fst (e_row1 junk (map fst (q_row1 junk ps n)) (replicate n 0) n) @ [0]]"
    using assms by (simp add: qd_init_def Let_def write_row_def l1 e_row1_def d)
qed

lemma q_row1_nth:
  "j < n \<Longrightarrow> fst (q_row1 junk ps n ! j) = rd junk PsCoeffs ps (j + 1) / rd junk PsCoeffs ps j"
  by (simp add: q_row1_def)

lemma e_row1_nth:
  "j < n - 1 \<Longrightarrow> fst (e_row1 junk q1 e0 n ! j) =
     rd junk (QTable 1) q1 (j + 1) - rd junk (QTable 1) q1 j + rd junk (ETable 0) e0 (j + 1)"
  by (simp add: e_row1_def)

lemma qd_init_agree:
  assumes n: "2 \<le> n" and len: "length ps = n"
  shows "tables_agree n 1 (qd_init junk ps n) (qd_init junk' ps n)"
proof -
  let ?z = "replicate n (replicate n (0::real))"
  let ?q = "\<lambda>junk. map fst (q_row1 junk ps n)"
  let ?e = "\<lambda>junk. map fst (e_row1 junk (?q junk) (replicate n 0) n) @ [0]"
  have lq: "length (?q junk) = n" "length (?q junk') = n" by (simp_all add: q_row1_def)
  have le: "length (?e junk) = n" "length (?e junk') = n"
    using n by (simp_all add: e_row1_def)
  have Q: "?q junk ! j = ?q junk' ! j" if "j + 2 \<le> n" for j
  proof -
    from that have j: "j < n" "j + 1 < n" by simp_all
    have l: "length (q_row1 junk ps n) = n" "length (q_row1 junk' ps n) = n"
      by (simp_all add: q_row1_def)
    show ?thesis using j len l by (simp add: q_row1_nth rd_in_range)
  qed
  have E: "?e junk ! j = ?e junk' ! j" if "j + 3 \<le> n" for j
  proof -
    from that have j: "j < n - 1" "j + 1 < n" "j < n" by simp_all
    have l: "length (e_row1 junk (?q junk) (replicate n 0) n) = n - 1"
      "length (e_row1 junk' (?q junk') (replicate n 0) n) = n - 1"
      by (simp_all add: e_row1_def)
    have "?e junk ! j = ?q junk ! (j + 1) - ?q junk ! j + 0"
      using j lq l by (simp add: nth_append e_row1_nth rd_in_range)
    moreover have "?e junk' ! j = ?q junk' ! (j + 1) - ?q junk' ! j + 0"
      using j lq l by (simp add: nth_append e_row1_nth rd_in_range)
    moreover have "?q junk ! (j + 1) = ?q junk' ! (j + 1)" using that by (intro Q) simp
    moreover have "?q junk ! j = ?q junk' ! j" using that by (intro Q) simp
    ultimately show ?thesis by simp
  qed
  have n1: "1 < n" using n by simp
  have L: "\<forall>r<n. length (?z[1 := ?q junk] ! r) = n \<and> length (?z[1 := ?q junk'] ! r) = n \<and>
      length (?z[1 := ?e junk] ! r) = n \<and> length (?z[1 := ?e junk'] ! r) = n"
    using lq le n1 by (simp add: nth_list_update)
  have QQ: "\<forall>r j. 1 \<le> r \<and> r \<le> 1 \<and> j + 2 * r \<le> n \<longrightarrow>
             ?z[1 := ?q junk] ! r ! j = ?z[1 := ?q junk'] ! r ! j"
  proof (intro allI impI)
    fix r j assume h: "1 \<le> r \<and> r \<le> 1 \<and> j + 2 * r \<le> n"
    then have r: "r = 1" by simp
    from h have "j + 2 \<le> n" unfolding r by simp
    from Q[OF this] show "?z[1 := ?q junk] ! r ! j = ?z[1 := ?q junk'] ! r ! j"
      unfolding r using n1 by simp
  qed
  have EE: "\<forall>r j. r \<le> 1 \<and> j + 2 * r + 1 \<le> n \<longrightarrow>
             ?z[1 := ?e junk] ! r ! j = ?z[1 := ?e junk'] ! r ! j"
  proof (intro allI impI)
    fix r j assume h: "r \<le> 1 \<and> j + 2 * r + 1 \<le> n"
    show "?z[1 := ?e junk] ! r ! j = ?z[1 := ?e junk'] ! r ! j"
    proof (cases "r = 1")
      case True
      from h have "j + 3 \<le> n" unfolding True by simp
      from E[OF this] show ?thesis unfolding True using n1 by simp
    next
      case False
      then have r: "r = 0" using h by simp
      show ?thesis unfolding r using n1 by simp
    qed
  qed
  have "length (?z[1 := ?q junk]) = n \<and> length (?z[1 := ?q junk']) = n \<and>
        length (?z[1 := ?e junk]) = n \<and> length (?z[1 := ?e junk']) = n" by simp
  with L QQ EE show ?thesis
    unfolding tables_agree_def qd_init_tables[OF n] by blast
qed

lemma fold_qd_step_agree:
  assumes "tables_agree n 1 s t" and "2 \<le> m" and "m \<le> n"
  shows "tables_agree n (m - 1) (fold (qd_step junk n) [2..<m] s)
           (fold (qd_step junk' n) [2..<m] t)"
  using assms(2,3)
proof (induction m)
  case 0
  then show ?case by simp
next
  case (Suc m)
  show ?case
  proof (cases "m = 1")
    case True
    then show ?thesis using assms(1) by simp
  next
    case False
    with Suc.prems have m2: "2 \<le> m" and mn: "m \<le> n" by simp_all
    from Suc.IH[OF this]
    have ih: "tables_agree n (m - 1) (fold (qd_step junk n) [2..<m] s)
           (fold (qd_step junk' n) [2..<m] t)" .
    have "1 \<le> m - 1" "(m - 1) + 1 < n" using m2 Suc.prems by simp_all
    from qd_step_agree[OF ih this, of junk junk']
    have "tables_agree n m (qd_step junk n m (fold (qd_step junk n) [2..<m] s))
           (qd_step junk' n m (fold (qd_step junk' n) [2..<m] t))"
      using m2 by simp
    then show ?thesis using m2 by simp
  qed
qed

lemma qd_output_agree:
  assumes ag: "tables_agree n (n - 1) s t" and n: "2 \<le> n"
  shows "map fst (qd_output s n) = map fst (qd_output t n)"
proof -
  from ag have qa: "\<And>r j. 1 \<le> r \<Longrightarrow> r \<le> n - 1 \<Longrightarrow> j + 2 * r \<le> n \<Longrightarrow>
               q_table s ! r ! j = q_table t ! r ! j"
    and ea: "\<And>r j. r \<le> n - 1 \<Longrightarrow> j + 2 * r + 1 \<le> n \<Longrightarrow>
               e_table s ! r ! j = e_table t ! r ! j"
    unfolding tables_agree_def by blast+
  have "fst (if i mod 2 = 0
              then (- (e_table s ! (i div 2) ! 0), [(ETable (i div 2), 0::nat)])
              else (- (q_table s ! ((i + 1) div 2) ! 0), [(QTable ((i + 1) div 2), 0)]))
      = fst (if i mod 2 = 0
              then (- (e_table t ! (i div 2) ! 0), [(ETable (i div 2), 0::nat)])
              else (- (q_table t ! ((i + 1) div 2) ! 0), [(QTable ((i + 1) div 2), 0)]))"
    if i: "1 \<le> i" "i < n" for i
  proof (cases "i mod 2 = 0")
    case True
    have "e_table s ! (i div 2) ! 0 = e_table t ! (i div 2) ! 0"
      using i True by (intro ea) presburger+
    with True show ?thesis by simp
  next
    case False
    have "q_table s ! ((i + 1) div 2) ! 0 = q_table t ! ((i + 1) div 2) ! 0"
      using i False by (intro qa) presburger+
    with False show ?thesis by simp
  qed
  then show ?thesis unfolding qd_output_def by simp
qed

lemma quotdiff_algorithm_junk_independent:
  "map_sum id cf_out (quotdiff_algorithm junk ps c0) =
   map_sum id cf_out (quotdiff_algorithm junk' ps c0)"
proof (cases "2 \<le> length ps")
  case False
  then show ?thesis by (simp add: quotdiff_algorithm_def)
next
  case True
  let ?n = "length ps"
  have "tables_agree ?n (?n - 1) (fold (qd_step junk ?n) [2..<?n] (qd_init junk ps ?n))
           (fold (qd_step junk' ?n) [2..<?n] (qd_init junk' ps ?n))"
    by (rule fold_qd_step_agree[OF qd_init_agree[OF True refl] True order_refl])
  from qd_output_agree[OF this True] True show ?thesis
    by (simp add: quotdiff_algorithm_def Let_def)
qed

lemma quotdiff_algorithm_junk_cases:
  obtains (fail) e where "quotdiff_algorithm junk xs c0 = Inl e"
      and "quotdiff_algorithm junk' xs c0 = Inl e"
    | (ok) r r' where "quotdiff_algorithm junk xs c0 = Inr r"
      and "quotdiff_algorithm junk' xs c0 = Inr r'" and "cf_out r = cf_out r'"
  using quotdiff_algorithm_junk_independent[of junk xs c0 junk']
  by (cases "quotdiff_algorithm junk xs c0"; cases "quotdiff_algorithm junk' xs c0") auto

lemma length_fold_append:
  "length (fold (\<lambda>i rc. rc @ [f i rc]) xs init) = length init + length xs"
  by (induction xs arbitrary: init) simp_all

lemma length_reciprocal_series:
  assumes "ps \<noteq> []"
  shows "length (reciprocal_series junk ps) = length ps"
proof -
  have "1 \<le> length ps" using assms by (cases ps) simp_all
  then show ?thesis
    unfolding reciprocal_series_def Let_def length_fold_append by simp
qed

lemma reciprocal_series_junk_independent:
  "ps \<noteq> [] \<Longrightarrow> reciprocal_series junk ps = reciprocal_series junk' ps"
  by (simp add: reciprocal_series_def rd_in_range)

lemma new_ContinuedFraction_junk_independent:
  assumes "nat \<bar>di\<bar> + 2 \<le> length ps"
  shows "new_ContinuedFraction junk ps di dg = new_ContinuedFraction junk' ps di dg"
proof -
  from assms have ne: "ps \<noteq> []" by auto
  have zero: "new_ContinuedFraction junk ps 0 dg = new_ContinuedFraction junk' ps 0 dg"
    by (cases rule: quotdiff_algorithm_junk_cases[of junk ps "[]" junk'])
       (simp_all add: new_ContinuedFraction_def)
  have above: "quotdiff_above_diagonal junk ps k [] [] = quotdiff_above_diagonal junk' ps k [] []"
    if "k \<le> length ps" for k
    by (cases rule: quotdiff_algorithm_junk_cases
          [of junk "map (\<lambda>i. ps ! i) [k..<length ps]" "[]" junk'])
       (simp_all add: quotdiff_above_diagonal_def offset_eq_take[OF that])
  have below: "quotdiff_below_diagonal junk ps k [] [] = quotdiff_below_diagonal junk' ps k [] []"
    if "k \<le> length ps" for k
  proof -
    let ?rc = "reciprocal_series junk ps"
    have rc: "reciprocal_series junk' ps = ?rc"
      using reciprocal_series_junk_independent[OF ne] by simp
    have k: "k \<le> length ?rc" using that length_reciprocal_series[OF ne] by simp
    show ?thesis
      by (cases rule: quotdiff_algorithm_junk_cases
            [of junk "map (\<lambda>i. ?rc ! i) [k..<length ps]" "[]" junk'])
         (simp_all add: quotdiff_below_diagonal_def rc offset_eq_take[OF k])
  qed
  show ?thesis
  proof (cases "di = 0")
    case True
    then show ?thesis using zero by simp
  next
    case False
    have "nat di \<le> length ps" "nat (- di) \<le> length ps" using assms by simp_all
    then show ?thesis
      using False above[of "nat di"] below[of "nat (- di)"]
      by (simp add: new_ContinuedFraction_def)
  qed
qed

subsection \<open>Rescaling in Euler's recursion\<close>

lemma get_rescale_value_nonzero:
  assumes "a \<noteq> 0 \<or> b \<noteq> 0"
  shows "get_rescale_value a b \<noteq> 0"
proof -
  have "\<bar>a\<bar> + \<bar>b\<bar> \<noteq> 0" using assms by auto
  then show ?thesis by (simp add: get_rescale_value_def Let_def)
qed

lemma euler_step_scaled:
  assumes k: "k \<noteq> 0"
    and nd: "current_num (plain_step junk cfc val i p) \<noteq> 0 \<or>
             current_denom (plain_step junk cfc val i p) \<noteq> 0"
  shows "\<exists>k'. k' \<noteq> 0 \<and>
           euler_step junk cfc val i (scale_state k p) =
             scale_state k' (plain_step junk cfc val i p)"
proof -
  let ?cn = "prev_num1 p + rd junk CfCoeffs cfc i * val * prev_num2 p"
  let ?cd = "prev_denom1 p + rd junk CfCoeffs cfc i * val * prev_denom2 p"
  let ?r = "get_rescale_value (k * ?cn) (k * ?cd)"
  from nd have "?cn \<noteq> 0 \<or> ?cd \<noteq> 0" by (simp add: plain_step_def Let_def)
  with k have "k * ?cn \<noteq> 0 \<or> k * ?cd \<noteq> 0" by simp
  then have r: "?r \<noteq> 0" by (rule get_rescale_value_nonzero)
  have "euler_step junk cfc val i (scale_state k p) =
          scale_state (k * ?r) (plain_step junk cfc val i p)"
    by (simp add: euler_step_def plain_step_def scale_state_def Let_def algebra_simps)
  moreover have "k * ?r \<noteq> 0" using k r by simp
  ultimately show ?thesis by blast
qed

lemma plain_loop_Suc:
  "1 \<le> d \<Longrightarrow> plain_loop junk cfc val (Suc d) = plain_step junk cfc val d (plain_loop junk cfc val d)"
  by (simp add: plain_loop_def)

lemma euler_loop_Suc:
  "1 \<le> d \<Longrightarrow> euler_loop junk cfc val (Suc d) = euler_step junk cfc val d (euler_loop junk cfc val d)"
  by (simp add: euler_loop_def)

lemma euler_loop_scaled:
  assumes "\<forall>i. 1 \<le> i \<and> i < depth \<longrightarrow>
             (current_num (plain_loop junk cfc val (Suc i)) \<noteq> 0 \<or>
              current_denom (plain_loop junk cfc val (Suc i)) \<noteq> 0)"
  shows "\<exists>k. k \<noteq> 0 \<and> euler_loop junk cfc val depth = scale_state k (plain_loop junk cfc val depth)"
  using assms
proof (induction depth)
  case 0
  have "euler_loop junk cfc val 0 = scale_state 1 (plain_loop junk cfc val 0)"
    by (simp add: euler_loop_def plain_loop_def scale_state_def)
  then show ?case by (intro exI[of _ 1]) simp
next
  case (Suc d)
  show ?case
  proof (cases "1 \<le> d")
    case False
    then have "d = 0" by simp
    have "euler_loop junk cfc val (Suc d) = scale_state 1 (plain_loop junk cfc val (Suc d))"
      unfolding \<open>d = 0\<close> by (simp add: euler_loop_def plain_loop_def scale_state_def)
    then show ?thesis by (intro exI[of _ 1]) simp
  next
    case True
    from Suc.prems have "\<forall>i. 1 \<le> i \<and> i < d \<longrightarrow>
             (current_num (plain_loop junk cfc val (Suc i)) \<noteq> 0 \<or>
              current_denom (plain_loop junk cfc val (Suc i)) \<noteq> 0)" by simp
    from Suc.IH[OF this] obtain k where k: "k \<noteq> 0"
      and eq: "euler_loop junk cfc val d = scale_state k (plain_loop junk cfc val d)" by blast
    have "1 \<le> d \<and> d < Suc d" using True by simp
    from Suc.prems[rule_format, OF this]
    have nd: "current_num (plain_step junk cfc val d (plain_loop junk cfc val d)) \<noteq> 0 \<or>
              current_denom (plain_step junk cfc val d (plain_loop junk cfc val d)) \<noteq> 0"
      unfolding plain_loop_Suc[OF True] .
    from euler_step_scaled[OF k nd] obtain k' where "k' \<noteq> 0"
      and "euler_step junk cfc val d (scale_state k (plain_loop junk cfc val d)) =
             scale_state k' (plain_step junk cfc val d (plain_loop junk cfc val d))" by blast
    then show ?thesis
      unfolding euler_loop_Suc[OF True] plain_loop_Suc[OF True] eq by blast
  qed
qed

text \<open>
  Claim C5 says that for every continued fraction and every point the recursion with
  rescaling ends with the same ratio \<open>num/den\<close>, and the same evaluation result, as the
  recursion without rescaling, in exact arithmetic. This fails when some round yields
  \<open>num = den = 0\<close>: the factor is then \<open>1/0\<close> (\<open>0\<close> in the model, infinite in IEEE
  arithmetic, where the values become NaN), the rescaled values stay degenerate, and the
  plain recursion goes on from the previous values. Amended claim: when no round of the
  plain recursion yields a numerator and a denominator that are both zero, the final
  ratio and the result of \<open>evaluate_on_diagonal\<close> are those of the recursion without
  rescaling.
\<close>

theorem rescaling_keeps_ratio:
  assumes "\<forall>i. 1 \<le> i \<and> i < depth \<longrightarrow>
             (current_num (plain_loop junk cfc val (Suc i)) \<noteq> 0 \<or>
              current_denom (plain_loop junk cfc val (Suc i)) \<noteq> 0)"
  shows "current_num (euler_loop junk cfc val depth) / current_denom (euler_loop junk cfc val depth)
           = current_num (plain_loop junk cfc val depth) / current_denom (plain_loop junk cfc val depth)
         \<and> evaluate_on_diagonal junk cfc val depth = evaluate_without_rescaling junk cfc val depth"
proof -
  from euler_loop_scaled[OF assms] obtain k where k: "k \<noteq> 0"
    and eq: "euler_loop junk cfc val depth = scale_state k (plain_loop junk cfc val depth)"
    by blast
  show ?thesis
    using k by (simp add: evaluate_on_diagonal_def evaluate_without_rescaling_def eq
        scale_state_def Let_def)
qed

theorem rescaling_keeps_ratio_witness:
  "current_num (plain_loop (\<lambda>v i. 0) [10 ^ 21, 1] 1 2) = 10 ^ 21 \<and>
   get_rescale_value (10 ^ 21) 2 = 1 / (10 ^ 21 + 2) \<and>
   evaluate_on_diagonal (\<lambda>v i. 0) [10 ^ 21, 1] 1 2 =
     evaluate_without_rescaling (\<lambda>v i. 0) [10 ^ 21, 1] 1 2 \<and>
   evaluate_without_rescaling (\<lambda>v i. 0) [10 ^ 21, 1] 1 2 = 10 ^ 21 / 2"
proof -
  let ?junk = "(\<lambda>v i. 0) :: memory"
  have p: "plain_loop ?junk [10 ^ 21, 1] 1 2 =
      \<lparr>current_num = 10 ^ 21, prev_num1 = 10 ^ 21, prev_num2 = 10 ^ 21,
       current_denom = 2, prev_denom1 = 2, prev_denom2 = 1\<rparr>"
    by (simp add: plain_loop_def plain_step_def euler_init_def rd_def Let_def upt_rec)
  have hyp: "\<forall>i. 1 \<le> i \<and> i < 2 \<longrightarrow>
             (current_num (plain_loop ?junk [10 ^ 21, 1] 1 (Suc i)) \<noteq> 0 \<or>
              current_denom (plain_loop ?junk [10 ^ 21, 1] 1 (Suc i)) \<noteq> 0)"
  proof (intro allI impI)
    fix i :: nat assume "1 \<le> i \<and> i < 2"
    then have "Suc i = 2" by simp
    show "current_num (plain_loop ?junk [10 ^ 21, 1] 1 (Suc i)) \<noteq> 0 \<or>
              current_denom (plain_loop ?junk [10 ^ 21, 1] 1 (Suc i)) \<noteq> 0"
      unfolding \<open>Suc i = 2\<close> p by simp
  qed
  have r: "get_rescale_value (10 ^ 21) 2 = 1 / (10 ^ 21 + 2)"
    by (simp add: get_rescale_value_def TOLERANCE_def Let_def)
  have e: "evaluate_without_rescaling ?junk [10 ^ 21, 1] 1 2 = 10 ^ 21 / 2"
    unfolding evaluate_without_rescaling_def Let_def p by simp
  have c: "current_num (plain_loop ?junk [10 ^ 21, 1] 1 2) = 10 ^ 21"
    unfolding p by simp
  from conjunct2[OF rescaling_keeps_ratio[OF hyp]] c r e show ?thesis by blast
qed

theorem rescaling_changes_degenerate_ratio:
  "evaluate_on_diagonal (\<lambda>v i. 0) [1, 0, - 1, 1] 1 4 = 0 \<and>
   evaluate_without_rescaling (\<lambda>v i. 0) [1, 0, - 1, 1] 1 4 = 1 \<and>
   evaluate_on_diagonal (\<lambda>v i. 0) [1, 0, - 1, 1] 1 4 \<noteq>
     evaluate_without_rescaling (\<lambda>v i. 0) [1, 0, - 1, 1] 1 4"
  by (simp add: evaluate_on_diagonal_def evaluate_without_rescaling_def euler_loop_def
      plain_loop_def euler_step_def plain_step_def euler_init_def get_rescale_value_def
      TOLERANCE_def rd_def Let_def upt_rec)

subsection \<open>Extrapolation\<close>

lemma grid_point_funpow: "grid_point add ss k = ((\<lambda>t. add t ss) ^^ k) ss"
  by (induction k) simp_all

lemma extrapolate_loop_exit:
  assumes "\<forall>k<n. ((\<lambda>t. dadd da t ss) ^^ k) t \<le> mv"
    and "\<not> ((\<lambda>t. dadd da t ss) ^^ n) t \<le> mv"
  shows "extrapolate_loop da junk cf hs mv ss t acc =
           Some (acc @ map (\<lambda>k. dadd da hs (cf_eval junk cf (((\<lambda>t. dadd da t ss) ^^ k) t)))
                         [0..<n])"
  using assms
proof (induction n arbitrary: t acc)
  case 0
  then have "\<not> t \<le> mv" by simp
  then show ?case by (subst extrapolate_loop.simps) simp
next
  case (Suc n)
  let ?it = "\<lambda>t. dadd da t ss"
  let ?g = "\<lambda>t. dadd da hs (cf_eval junk cf t)"
  from Suc.prems(1) have le: "t \<le> mv" by (metis funpow_0 zero_less_Suc)
  have shift: "(?it ^^ k) (?it t) = (?it ^^ Suc k) t" for k
    by (simp only: funpow_Suc_right o_apply)
  have a: "\<forall>k<n. (?it ^^ k) (?it t) \<le> mv"
    using Suc.prems(1) unfolding shift by (meson Suc_less_eq)
  have b: "\<not> (?it ^^ n) (?it t) \<le> mv"
    using Suc.prems(2) unfolding shift .
  have "extrapolate_loop da junk cf hs mv ss t acc =
        extrapolate_loop da junk cf hs mv ss (?it t) (acc @ [?g t])"
    using le by (subst extrapolate_loop.simps) simp
  also have "\<dots> = Some ((acc @ [?g t]) @ map (\<lambda>k. ?g ((?it ^^ k) (?it t))) [0..<n])"
    by (rule Suc.IH[OF a b])
  also have "(acc @ [?g t]) @ map (\<lambda>k. ?g ((?it ^^ k) (?it t))) [0..<n]
      = acc @ map (\<lambda>k. ?g ((?it ^^ k) t)) [0..<Suc n]"
  proof -
    have "map (\<lambda>k. ?g ((?it ^^ k) t)) [0..<Suc n]
        = ?g t # map (\<lambda>k. ?g ((?it ^^ Suc k) t)) [0..<n]"
      by (simp only: upt_conv_Cons[OF zero_less_Suc] list.map map_Suc_upt[symmetric] map_map
            comp_def funpow_0)
    then show ?thesis unfolding shift by simp
  qed
  finally show ?case .
qed

lemma extrapolate_loop_returns:
  assumes "extrapolate_loop da junk cf hs mv ss t acc = Some y"
  shows "\<exists>k. \<not> ((\<lambda>t. dadd da t ss) ^^ k) t \<le> mv"
proof (rule extrapolate_loop.raw_induct
    [where P = "\<lambda>da junk cf hs mv ss t acc y. \<exists>k. \<not> ((\<lambda>t. dadd da t ss) ^^ k) t \<le> mv",
     OF _ assms])
  fix f and da :: double_arith and junk :: memory and cf hs mv ss t acc y
  assume IH: "\<And>da junk cf hs mv ss t acc y.
                 f da junk cf hs mv ss t acc = Some y \<Longrightarrow>
                 \<exists>k. \<not> ((\<lambda>t. dadd da t ss) ^^ k) t \<le> (mv::real)"
    and eq: "(if t \<le> mv
              then f da junk cf hs mv ss (dadd da t ss) (acc @ [dadd da hs (cf_eval junk cf t)])
              else Some acc) = Some y"
  show "\<exists>k. \<not> ((\<lambda>t. dadd da t ss) ^^ k) t \<le> mv"
  proof (cases "t \<le> mv")
    case False
    then have "\<not> ((\<lambda>t. dadd da t ss) ^^ 0) t \<le> mv" by simp
    then show ?thesis by blast
  next
    case True
    with eq have "f da junk cf hs mv ss (dadd da t ss) (acc @ [dadd da hs (cf_eval junk cf t)]) = Some y"
      by simp
    from IH[OF this] obtain k where k: "\<not> ((\<lambda>t. dadd da t ss) ^^ k) (dadd da t ss) \<le> mv" by blast
    have sh: "((\<lambda>t. dadd da t ss) ^^ Suc k) t = ((\<lambda>t. dadd da t ss) ^^ k) (dadd da t ss)"
      by (simp only: funpow_Suc_right o_apply)
    from k have "\<not> ((\<lambda>t. dadd da t ss) ^^ Suc k) t \<le> mv" unfolding sh .
    then show ?thesis by blast
  qed
qed

lemma first_exit:
  fixes g :: "nat \<Rightarrow> real"
  assumes "\<exists>k. \<not> g k \<le> mv"
  shows "\<exists>n. (\<forall>k<n. g k \<le> mv) \<and> \<not> g n \<le> mv"
proof -
  let ?n = "LEAST k. \<not> g k \<le> mv"
  have "\<not> g ?n \<le> mv" using assms by (rule LeastI_ex)
  moreover have "\<forall>k<?n. g k \<le> mv" using not_less_Least by blast
  ultimately show ?thesis by blast
qed

lemma extrapolate_distinct_exit:
  assumes "\<forall>k<n. grid_point (dadd da) ss k \<le> mv" and "mv < grid_point (dadd da) ss n"
  shows "extrapolate_distinct da junk cf counts_hist mv ss =
     Some (fold (\<lambda>x acc. dadd da acc x) counts_hist 0 #
           map (\<lambda>k. dadd da (fold (\<lambda>x acc. dadd da acc x) counts_hist 0)
                      (cf_eval junk cf (grid_point (dadd da) ss k))) [0..<n])"
proof -
  have a: "\<forall>k<n. ((\<lambda>t. dadd da t ss) ^^ k) ss \<le> mv"
    using assms(1) by (simp add: grid_point_funpow)
  have b: "\<not> ((\<lambda>t. dadd da t ss) ^^ n) ss \<le> mv"
    using assms(2) by (simp add: grid_point_funpow)
  show ?thesis
    unfolding extrapolate_distinct_def Let_def extrapolate_loop_exit[OF a b]
    by (simp add: grid_point_funpow)
qed

lemma extrapolate_distinct_returns:
  assumes "extrapolate_distinct da junk cf counts_hist mv ss = Some est"
  shows "\<exists>n. (\<forall>k<n. grid_point (dadd da) ss k \<le> mv) \<and> mv < grid_point (dadd da) ss n"
proof -
  have "\<exists>k. \<not> ((\<lambda>t. dadd da t ss) ^^ k) ss \<le> mv"
    using assms unfolding extrapolate_distinct_def Let_def by (rule extrapolate_loop_returns)
  then have "\<exists>k. \<not> grid_point (dadd da) ss k \<le> mv" by (simp add: grid_point_funpow)
  from first_exit[OF this] show ?thesis by (simp add: not_le)
qed

lemma extrapolate_distinct_None_iff:
  "extrapolate_distinct da junk cf counts_hist mv ss = None \<longleftrightarrow>
     (\<forall>k. grid_point (dadd da) ss k \<le> mv)"
proof
  assume none: "extrapolate_distinct da junk cf counts_hist mv ss = None"
  show "\<forall>k. grid_point (dadd da) ss k \<le> mv"
  proof (rule ccontr)
    assume "\<not> (\<forall>k. grid_point (dadd da) ss k \<le> mv)"
    then have "\<exists>k. \<not> grid_point (dadd da) ss k \<le> mv" by blast
    from first_exit[OF this] obtain n where
      "\<forall>k<n. grid_point (dadd da) ss k \<le> mv" "mv < grid_point (dadd da) ss n"
      by (auto simp: not_le)
    from extrapolate_distinct_exit[OF this, of junk cf counts_hist] none show False by simp
  qed
next
  assume all: "\<forall>k. grid_point (dadd da) ss k \<le> mv"
  show "extrapolate_distinct da junk cf counts_hist mv ss = None"
  proof (cases "extrapolate_distinct da junk cf counts_hist mv ss")
    case None
    then show ?thesis .
  next
    case (Some est)
    from extrapolate_distinct_returns[OF Some] all show ?thesis by (auto simp: not_le[symmetric])
  qed
qed

lemma grid_point_zero_step: "grid_point (+) (0::real) k = 0"
  by (induction k) simp_all

text \<open>
  Claim C6 says that for every histogram, \<open>max_value\<close> and \<open>step_size\<close> the call
  \<open>extrapolate_distinct\<close> produces the sum of the histogram followed by that sum plus the
  evaluator's output at the grid points \<open>step_size, 2 step_size, \<dots>\<close> up to \<open>max_value\<close>.
  The loop of line 526 has no guard on the step: with \<open>step_size = 0 \<le> max_value\<close> it
  never ends and no sequence is produced. The points at which it evaluates are the values
  of the running sum \<open>t += step_size\<close>, not the products \<open>k step_size\<close>.
  Amended claim: the call returns exactly when the loop variable \<open>t\<close>, which starts at
  \<open>step_size\<close> and to which \<open>step_size\<close> is added after every round, exceeds \<open>max_value\<close>
  after finitely many rounds \<open>n\<close>; the sequence returned then has \<open>n + 1\<close> elements, first
  the sum of the histogram entries added up from the left, then for each of the \<open>n\<close>
  values of \<open>t\<close>, in the order of the loop, that sum plus the evaluator's output at \<open>t\<close>.
  When \<open>t\<close> never exceeds \<open>max_value\<close> the call does not return.
\<close>

theorem extrapolate_distinct_running_grid:
  "(extrapolate_distinct da junk cf counts_hist mv ss = Some est \<longleftrightarrow>
      (\<exists>n. (\<forall>k<n. grid_point (dadd da) ss k \<le> mv) \<and> mv < grid_point (dadd da) ss n \<and>
           est = fold (\<lambda>x acc. dadd da acc x) counts_hist 0 #
                 map (\<lambda>k. dadd da (fold (\<lambda>x acc. dadd da acc x) counts_hist 0)
                            (cf_eval junk cf (grid_point (dadd da) ss k))) [0..<n])) \<and>
   (extrapolate_distinct da junk cf counts_hist mv ss = None \<longleftrightarrow>
      (\<forall>k. grid_point (dadd da) ss k \<le> mv))"
proof -
  have some: "extrapolate_distinct da junk cf counts_hist mv ss = Some est \<longleftrightarrow>
      (\<exists>n. (\<forall>k<n. grid_point (dadd da) ss k \<le> mv) \<and> mv < grid_point (dadd da) ss n \<and>
           est = fold (\<lambda>x acc. dadd da acc x) counts_hist 0 #
                 map (\<lambda>k. dadd da (fold (\<lambda>x acc. dadd da acc x) counts_hist 0)
                            (cf_eval junk cf (grid_point (dadd da) ss k))) [0..<n])"
  proof
    assume r: "extrapolate_distinct da junk cf counts_hist mv ss = Some est"
    from extrapolate_distinct_returns[OF r] obtain n where
      n: "\<forall>k<n. grid_point (dadd da) ss k \<le> mv" "mv < grid_point (dadd da) ss n" by blast
    from extrapolate_distinct_exit[OF n, of junk cf counts_hist] r n
    show "\<exists>n. (\<forall>k<n. grid_point (dadd da) ss k \<le> mv) \<and> mv < grid_point (dadd da) ss n \<and>
            est = fold (\<lambda>x acc. dadd da acc x) counts_hist 0 #
                  map (\<lambda>k. dadd da (fold (\<lambda>x acc. dadd da acc x) counts_hist 0)
                             (cf_eval junk cf (grid_point (dadd da) ss k))) [0..<n]"
      by auto
  next
    assume "\<exists>n. (\<forall>k<n. grid_point (dadd da) ss k \<le> mv) \<and> mv < grid_point (dadd da) ss n \<and>
            est = fold (\<lambda>x acc. dadd da acc x) counts_hist 0 #
                  map (\<lambda>k. dadd da (fold (\<lambda>x acc. dadd da acc x) counts_hist 0)
                             (cf_eval junk cf (grid_point (dadd da) ss k))) [0..<n]"
    then obtain n where n: "\<forall>k<n. grid_point (dadd da) ss k \<le> mv" "mv < grid_point (dadd da) ss n"
      and e: "est = fold (\<lambda>x acc. dadd da acc x) counts_hist 0 #
                  map (\<lambda>k. dadd da (fold (\<lambda>x acc. dadd da acc x) counts_hist 0)
                             (cf_eval junk cf (grid_point (dadd da) ss k))) [0..<n]"
      by blast
    show "extrapolate_distinct da junk cf counts_hist mv ss = Some est"
      unfolding e by (rule extrapolate_distinct_exit[OF n])
  qed
  show ?thesis
    by (rule conjI[OF some extrapolate_distinct_None_iff])
qed

theorem extrapolate_distinct_running_grid_witness:
  "grid_point (dadd exact_arith) 1 0 \<le> 2 \<and> grid_point (dadd exact_arith) 1 1 \<le> 2 \<and>
   2 < grid_point (dadd exact_arith) 1 2 \<and>
   extrapolate_distinct exact_arith (\<lambda>v i. 0)
     \<lparr>ps_coeffs = [1, 3 / 2], cf_coeffs = [1, - (3 / 2)], offset_coeffs = [], diagonal_idx = 0,
      degree = 2\<rparr> [1, 2, 3] 2 1 = Some [6, 4, 5]"
proof -
  let ?cf = "\<lparr>ps_coeffs = [1, 3 / 2], cf_coeffs = [1, - (3 / 2)], offset_coeffs = [],
              diagonal_idx = 0, degree = 2\<rparr>"
  let ?junk = "(\<lambda>v i. 0) :: memory"
  have g0: "grid_point (dadd exact_arith) 1 0 \<le> 2" by (simp add: exact_arith_def)
  have g1: "grid_point (dadd exact_arith) 1 1 \<le> 2" by (simp add: exact_arith_def)
  have g2: "2 < grid_point (dadd exact_arith) 1 2"
    by (simp add: exact_arith_def numeral_2_eq_2)
  have below: "\<forall>k<2. grid_point (dadd exact_arith) 1 k \<le> 2"
    using g0 g1 by (simp add: less_Suc_eq numeral_2_eq_2)
  have e1: "cf_eval ?junk ?cf 1 = - 2"
    by (simp add: cf_eval_def evaluate_on_diagonal_def euler_loop_def euler_step_def
          euler_init_def get_rescale_value_def TOLERANCE_def rd_def Let_def upt_rec)
  have e2: "cf_eval ?junk ?cf 2 = - 1"
    by (simp add: cf_eval_def evaluate_on_diagonal_def euler_loop_def euler_step_def
          euler_init_def get_rescale_value_def TOLERANCE_def rd_def Let_def upt_rec)
  have est: "[6, 4, 5] =
      fold (\<lambda>x acc. dadd exact_arith acc x) [1, 2, 3] 0 #
      map (\<lambda>k. dadd exact_arith (fold (\<lambda>x acc. dadd exact_arith acc x) [1, 2, 3] 0)
                 (cf_eval ?junk ?cf (grid_point (dadd exact_arith) 1 k))) [0..<2]"
    using e1 e2 by (simp add: exact_arith_def upt_rec numeral_2_eq_2)
  have ex: "\<exists>n. (\<forall>k<n. grid_point (dadd exact_arith) 1 k \<le> 2) \<and>
      2 < grid_point (dadd exact_arith) 1 n \<and>
      [6, 4, 5] =
        fold (\<lambda>x acc. dadd exact_arith acc x) [1, 2, 3] 0 #
        map (\<lambda>k. dadd exact_arith (fold (\<lambda>x acc. dadd exact_arith acc x) [1, 2, 3] 0)
                   (cf_eval ?junk ?cf (grid_point (dadd exact_arith) 1 k))) [0..<n]"
    by (rule exI[of _ 2]) (rule conjI[OF below conjI[OF g2 est]])
  have res: "extrapolate_distinct exact_arith ?junk ?cf [1, 2, 3] 2 1 = Some [6, 4, 5]"
    by (rule iffD2[OF conjunct1[OF extrapolate_distinct_running_grid
                  [of exact_arith ?junk ?cf "[1, 2, 3]" 2 1 "[6, 4, 5]"]] ex])
  show ?thesis
    by (rule conjI[OF g0 conjI[OF g1 conjI[OF g2 res]]])
qed

text \<open>With \<open>step_size = 0\<close> and \<open>max_value = 1\<close> the call does not return.\<close>

theorem extrapolate_distinct_zero_step_diverges:
  "extrapolate_distinct exact_arith (\<lambda>v i. 0)
     \<lparr>ps_coeffs = [1, 3 / 2], cf_coeffs = [1, - (3 / 2)], offset_coeffs = [], diagonal_idx = 0,
      degree = 2\<rparr> [1, 2, 3] 1 0 = None"
  unfolding extrapolate_distinct_None_iff
  by (simp add: exact_arith_def grid_point_zero_step)

subsection \<open>Selection of the degree\<close>

lemma quotdiff_algorithm_cases:
  "(case quotdiff_algorithm junk xs c0 of Inl e \<Rightarrow> False | Inr r \<Rightarrow> True) \<longleftrightarrow> 2 \<le> length xs"
  by (auto simp: quotdiff_algorithm_def Let_def)

lemma new_ContinuedFraction_defined:
  "(\<exists>cf. new_ContinuedFraction junk ps di dg = Inr cf) \<longleftrightarrow> nat \<bar>di\<bar> + 2 \<le> length ps"
  using quotdiff_algorithm_cases[of junk ps "[]"]
    quotdiff_algorithm_cases[of junk "drop (nat di) ps" "[]"]
    quotdiff_algorithm_cases[of junk
      "map (\<lambda>i. reciprocal_series junk ps ! i) [nat (- di)..<length ps]" "[]"]
  by (auto simp: new_ContinuedFraction_def quotdiff_above_diagonal_def
      quotdiff_below_diagonal_def Let_def holding_eq_drop split: sum.splits)

lemma new_ContinuedFraction_degree:
  "new_ContinuedFraction junk ps di d = Inr cf \<Longrightarrow>
   new_ContinuedFraction junk ps di d' = Inr (cf\<lparr>degree := d'\<rparr>)"
  by (auto simp: new_ContinuedFraction_def split: if_splits sum.splits)

lemma extrapolate_distinct_terminates:
  assumes "\<exists>n. mv < grid_point (dadd da) ss n"
  shows "\<exists>est. extrapolate_distinct da junk cf counts_hist mv ss = Some est"
proof -
  from assms have "\<exists>k. \<not> grid_point (dadd da) ss k \<le> mv" by (simp add: not_le)
  from first_exit[OF this] obtain n where
    "\<forall>k<n. grid_point (dadd da) ss k \<le> mv" "mv < grid_point (dadd da) ss n"
    by (auto simp: not_le)
  from extrapolate_distinct_exit[OF this] show ?thesis by blast
qed

lemma tried_degrees_small: "n < 6 \<Longrightarrow> tried_degrees n = []"
  by (simp add: tried_degrees_def)

lemma tried_degrees_step:
  assumes "6 \<le> n" "n mod 2 = 0"
  shows "tried_degrees n = n # tried_degrees (n - 2)"
proof (cases "n = 6")
  case True
  then show ?thesis by (simp add: tried_degrees_def upt_rec)
next
  case False
  with assms have n8: "8 \<le> n" by presburger
  have "[6..<Suc n] = [6..<Suc (n - 2)] @ [n - 1, n]"
  proof -
    have "Suc (n - 2) \<le> Suc n" "6 \<le> Suc (n - 2)" using n8 by arith+
    then have "[6..<Suc n] = [6..<Suc (n - 2)] @ [Suc (n - 2)..<Suc n]"
      by (metis le_Suc_ex upt_add_eq_append)
    moreover have "[Suc (n - 2)..<Suc n] = [n - 1, n]"
      using n8 by (simp add: upt_rec Suc_diff_Suc numeral_2_eq_2)
    ultimately show ?thesis by simp
  qed
  moreover have "(n - 1) mod 2 \<noteq> 0" using assms by presburger
  ultimately show ?thesis using assms by (simp add: tried_degrees_def)
qed

lemma find_decreasing:
  assumes "sorted_wrt (\<lambda>x y. (y::nat) < x) xs"
  shows "find P xs = Some d \<longleftrightarrow> d \<in> set xs \<and> P d \<and> (\<forall>d' \<in> set xs. d < d' \<longrightarrow> \<not> P d')"
  using assms
proof (induction xs)
  case Nil
  show ?case by simp
next
  case (Cons x xs)
  then have lt: "\<forall>y \<in> set xs. y < x" and srt: "sorted_wrt (\<lambda>x y. y < x) xs" by simp_all
  show ?case
  proof (cases "P x")
    case True
    then show ?thesis using lt by auto
  next
    case False
    then show ?thesis using Cons.IH[OF srt] lt by auto
  qed
qed

lemma tried_degrees_sorted: "sorted_wrt (\<lambda>x y. y < x) (tried_degrees n)"
  unfolding tried_degrees_def sorted_wrt_rev
  by (rule sorted_wrt_filter) (rule sorted_wrt_upt)

lemma set_tried_degrees: "set (tried_degrees n) = {d. d mod 2 = 0 \<and> 6 \<le> d \<and> d \<le> n}"
  by (auto simp: tried_degrees_def)

lemma optimal_loop_find:
  assumes grid: "n < 6 \<or> (\<exists>k. max_value cfa < grid_point (dadd da) (step_size cfa) k)"
    and ctor: "n < 6 \<or> nat \<bar>approx_diagonal_idx cfa\<bar> + 2 \<le> length ps"
    and ev: "n mod 2 = 0"
  shows "optimal_loop da junk cfa counts_hist ps n =
           Some (case find (degree_passes da junk cfa counts_hist ps) (tried_degrees n) of
                   None \<Rightarrow> Inl FitFailure
                 | Some d \<Rightarrow> new_ContinuedFraction junk ps (approx_diagonal_idx cfa) d)"
  using grid ctor ev
proof (induction n rule: less_induct)
  case (less n)
  show ?case
  proof (cases "6 \<le> n")
    case False
    then show ?thesis
      by (subst optimal_loop.simps) (simp add: MIN_ALLOWED_DEGREE_def tried_degrees_small)
  next
    case True
    with less.prems have len: "nat \<bar>approx_diagonal_idx cfa\<bar> + 2 \<le> length ps"
      and ends: "\<exists>k. max_value cfa < grid_point (dadd da) (step_size cfa) k" by simp_all
    then obtain cf where cf: "new_ContinuedFraction junk ps (approx_diagonal_idx cfa) n = Inr cf"
      using new_ContinuedFraction_defined by blast
    obtain est where est:
      "extrapolate_distinct da junk cf counts_hist (max_value cfa) (step_size cfa) = Some est"
      using extrapolate_distinct_terminates[OF ends] by blast
    have td: "tried_degrees n = n # tried_degrees (n - 2)"
      using True less.prems by (intro tried_degrees_step) simp_all
    have pass: "degree_passes da junk cfa counts_hist ps n = check_estimates_stability (<) (dsub da) est"
      by (simp add: degree_passes_def cf est)
    show ?thesis
    proof (cases "check_estimates_stability (<) (dsub da) est")
      case True
      then show ?thesis
        using \<open>6 \<le> n\<close> cf est pass
        by (subst optimal_loop.simps) (simp add: MIN_ALLOWED_DEGREE_def td)
    next
      case False
      have "n - 2 < n" using \<open>6 \<le> n\<close> by simp
      moreover have "n - 2 < 6 \<or> (\<exists>k. max_value cfa < grid_point (dadd da) (step_size cfa) k)"
        using ends by simp
      moreover have "n - 2 < 6 \<or> nat \<bar>approx_diagonal_idx cfa\<bar> + 2 \<le> length ps"
        using len by simp
      moreover have "(n - 2) mod 2 = 0" using less.prems(3) \<open>6 \<le> n\<close> by presburger
      ultimately have ih: "optimal_loop da junk cfa counts_hist ps (n - 2) =
           Some (case find (degree_passes da junk cfa counts_hist ps) (tried_degrees (n - 2)) of
                   None \<Rightarrow> Inl FitFailure
                 | Some d \<Rightarrow> new_ContinuedFraction junk ps (approx_diagonal_idx cfa) d)"
        by (rule less.IH)
      show ?thesis
        using \<open>6 \<le> n\<close> cf est pass False ih
        by (subst optimal_loop.simps) (simp add: MIN_ALLOWED_DEGREE_def td)
    qed
  qed
qed

lemma length_power_series: "length (power_series junk counts_hist n) = n"
  by (simp add: power_series_def)

lemma adjusted_max_terms_even:
  "adjusted_max_terms cfa mod 2 = 0 \<and> adjusted_max_terms cfa \<le> max_terms cfa \<and>
   max_terms cfa \<le> adjusted_max_terms cfa + 1"
  unfolding adjusted_max_terms_def by presburger

lemma new_ContinuedFraction_fields:
  "new_ContinuedFraction junk ps di dg = Inr cf \<Longrightarrow> degree cf = dg \<and> diagonal_idx cf = di \<and> ps_coeffs cf = ps"
  by (auto simp: new_ContinuedFraction_def split: if_splits sum.splits)

text \<open>
  Claim C3 says that for every histogram and configuration \<open>optimal_continued_fraction\<close>
  rounds \<open>max_terms\<close> down to the nearest even value, tries the degrees from there down to
  and including 6 in steps of 2, returns the ContinuedFraction of the first (largest)
  degree whose estimates pass \<open>check_estimates_stability\<close>, and signals the fitting
  failure if and only if no degree in that range passes. Two configurations escape it.
  When the grid loop of \<open>extrapolate_distinct\<close> does not end (\<open>step_size = 0 \<le> max_value\<close>)
  the call never returns, so no degree passes and no failure is signalled. When the
  diagonal index leaves fewer than two coefficients for the quotient-difference tables
  the constructor accesses a table row that does not exist.
  Amended claim: the statement holds for every histogram and every configuration in
  which, whenever a degree is tried (the even-adjusted \<open>max_terms\<close> is at least 6), the
  loop variable of the grid exceeds \<open>max_value\<close> after finitely many rounds and the
  absolute value of the diagonal index is at most the even-adjusted \<open>max_terms\<close> minus 2.
\<close>

theorem optimal_continued_fraction_first_stable:
  assumes grid: "adjusted_max_terms cfa < 6 \<or>
               (\<exists>k. max_value cfa < grid_point (dadd da) (step_size cfa) k)"
    and ctor: "adjusted_max_terms cfa < 6 \<or>
               nat \<bar>approx_diagonal_idx cfa\<bar> + 2 \<le> adjusted_max_terms cfa"
  shows "(adjusted_max_terms cfa mod 2 = 0 \<and> adjusted_max_terms cfa \<le> max_terms cfa \<and>
          max_terms cfa \<le> adjusted_max_terms cfa + 1) \<and>
         set (tried_degrees (adjusted_max_terms cfa)) =
           {d. d mod 2 = 0 \<and> 6 \<le> d \<and> d \<le> adjusted_max_terms cfa} \<and>
         (optimal_continued_fraction da junk cfa counts_hist = Some (Inl FitFailure) \<longleftrightarrow>
            (\<forall>d \<in> set (tried_degrees (adjusted_max_terms cfa)).
               \<not> degree_passes da junk cfa counts_hist
                    (power_series junk counts_hist (adjusted_max_terms cfa)) d)) \<and>
         (\<forall>cf. optimal_continued_fraction da junk cfa counts_hist = Some (Inr cf) \<longleftrightarrow>
            (\<exists>d \<in> set (tried_degrees (adjusted_max_terms cfa)).
               degree_passes da junk cfa counts_hist
                 (power_series junk counts_hist (adjusted_max_terms cfa)) d \<and>
               (\<forall>d' \<in> set (tried_degrees (adjusted_max_terms cfa)). d < d' \<longrightarrow>
                  \<not> degree_passes da junk cfa counts_hist
                       (power_series junk counts_hist (adjusted_max_terms cfa)) d') \<and>
               new_ContinuedFraction junk
                 (power_series junk counts_hist (adjusted_max_terms cfa))
                 (approx_diagonal_idx cfa) d = Inr cf)) \<and>
         (optimal_continued_fraction da junk cfa counts_hist = Some (Inl FitFailure) \<or>
          (\<exists>cf. optimal_continued_fraction da junk cfa counts_hist = Some (Inr cf)))"
proof -
  let ?adj = "adjusted_max_terms cfa"
  let ?ps = "power_series junk counts_hist ?adj"
  let ?P = "degree_passes da junk cfa counts_hist ?ps"
  let ?new = "new_ContinuedFraction junk ?ps (approx_diagonal_idx cfa)"
  let ?res = "optimal_continued_fraction da junk cfa counts_hist"
  have ev: "?adj mod 2 = 0" using adjusted_max_terms_even by blast
  have ctor': "?adj < 6 \<or> nat \<bar>approx_diagonal_idx cfa\<bar> + 2 \<le> length ?ps"
    using ctor by (simp add: length_power_series)
  have res: "?res = Some (case find ?P (tried_degrees ?adj) of
                            None \<Rightarrow> Inl FitFailure | Some d \<Rightarrow> ?new d)"
    unfolding optimal_continued_fraction_def Let_def
    by (rule optimal_loop_find[OF grid ctor' ev])
  have built: "\<exists>cf. ?new d = Inr cf" if "d \<in> set (tried_degrees ?adj)" for d
  proof -
    from that have "6 \<le> ?adj" by (auto simp: set_tried_degrees)
    with ctor' show ?thesis using new_ContinuedFraction_defined by auto
  qed
  have found: "find ?P (tried_degrees ?adj) = Some d \<longleftrightarrow>
      d \<in> set (tried_degrees ?adj) \<and> ?P d \<and>
      (\<forall>d' \<in> set (tried_degrees ?adj). d < d' \<longrightarrow> \<not> ?P d')" for d
    by (rule find_decreasing[OF tried_degrees_sorted])
  have fail: "?res = Some (Inl FitFailure) \<longleftrightarrow> (\<forall>d \<in> set (tried_degrees ?adj). \<not> ?P d)"
  proof (cases "find ?P (tried_degrees ?adj)")
    case None
    have r: "?res = Some (Inl FitFailure)" using res None by simp
    have "\<forall>d \<in> set (tried_degrees ?adj). \<not> ?P d"
      using None by (simp add: find_None_iff)
    with r show ?thesis by simp
  next
    case (Some d)
    have d: "d \<in> set (tried_degrees ?adj) \<and> ?P d" using found[of d] Some by blast
    then obtain cf where cf: "?new d = Inr cf" using built[of d] by blast
    have "?res = Some (Inr cf)" using res Some cf by simp
    then have "?res \<noteq> Some (Inl FitFailure)" by simp
    moreover have "\<not> (\<forall>d \<in> set (tried_degrees ?adj). \<not> ?P d)" using d by blast
    ultimately show ?thesis by blast
  qed
  have succ: "?res = Some (Inr cf) \<longleftrightarrow>
      (\<exists>d \<in> set (tried_degrees ?adj). ?P d \<and>
         (\<forall>d' \<in> set (tried_degrees ?adj). d < d' \<longrightarrow> \<not> ?P d') \<and> ?new d = Inr cf)" for cf
  proof (cases "find ?P (tried_degrees ?adj)")
    case None
    have r: "?res = Some (Inl FitFailure)" using res None by simp
    have none: "\<forall>d \<in> set (tried_degrees ?adj). \<not> ?P d"
      using None by (simp add: find_None_iff)
    have "\<not> (\<exists>d \<in> set (tried_degrees ?adj). ?P d \<and>
         (\<forall>d' \<in> set (tried_degrees ?adj). d < d' \<longrightarrow> \<not> ?P d') \<and> ?new d = Inr cf)"
      using none by blast
    moreover have "?res \<noteq> Some (Inr cf)" unfolding r by simp
    ultimately show ?thesis by blast
  next
    case (Some d)
    have d: "d \<in> set (tried_degrees ?adj) \<and> ?P d \<and>
      (\<forall>d' \<in> set (tried_degrees ?adj). d < d' \<longrightarrow> \<not> ?P d')"
      using found[of d] Some by blast
    have r: "?res = Some (?new d)" using res Some by simp
    show ?thesis
    proof
      assume "?res = Some (Inr cf)"
      then have "?new d = Inr cf" unfolding r by simp
      with d show "\<exists>d \<in> set (tried_degrees ?adj). ?P d \<and>
         (\<forall>d' \<in> set (tried_degrees ?adj). d < d' \<longrightarrow> \<not> ?P d') \<and> ?new d = Inr cf"
        by blast
    next
      assume "\<exists>d \<in> set (tried_degrees ?adj). ?P d \<and>
         (\<forall>d' \<in> set (tried_degrees ?adj). d < d' \<longrightarrow> \<not> ?P d') \<and> ?new d = Inr cf"
      then obtain d2 where d2: "d2 \<in> set (tried_degrees ?adj) \<and> ?P d2 \<and>
         (\<forall>d' \<in> set (tried_degrees ?adj). d2 < d' \<longrightarrow> \<not> ?P d')" and n2: "?new d2 = Inr cf"
        by blast
      from d2 have "find ?P (tried_degrees ?adj) = Some d2" using found[of d2] by blast
      with Some have "d2 = d" by simp
      with n2 show "?res = Some (Inr cf)" unfolding r by simp
    qed
  qed
  have total: "?res = Some (Inl FitFailure) \<or> (\<exists>cf. ?res = Some (Inr cf))"
  proof (cases "find ?P (tried_degrees ?adj)")
    case None
    then show ?thesis using res by simp
  next
    case (Some d)
    have "d \<in> set (tried_degrees ?adj)" using found[of d] Some by blast
    then obtain cf where cf: "?new d = Inr cf" using built[of d] by blast
    have "?res = Some (Inr cf)" using res Some cf by simp
    then show ?thesis by blast
  qed
  have succ_all: "\<forall>cf. ?res = Some (Inr cf) \<longleftrightarrow>
      (\<exists>d \<in> set (tried_degrees ?adj). ?P d \<and>
         (\<forall>d' \<in> set (tried_degrees ?adj). d < d' \<longrightarrow> \<not> ?P d') \<and> ?new d = Inr cf)"
    by (intro allI) (rule succ)
  show ?thesis
    by (rule conjI[OF adjusted_max_terms_even[of cfa]
          conjI[OF set_tried_degrees[of ?adj] conjI[OF fail conjI[OF succ_all total]]]])
qed

lemma replicate_8: "replicate 8 x = [x, x, x, x, x, x, x, x]"
  by (simp add: numeral_eq_Suc)

lemma quotdiff_algorithm_example:
  "map_sum id cf_out (quotdiff_algorithm (\<lambda>v i. 0) [12, - 6, 12, - 6, 6, - 9, 11, - 11] []) =
     Inr [12, 1 / 2, 3 / 2, - 2, 1 / 3, - (5 / 6), 17 / 10, - (1 / 5)]"
proof -
  let ?J = "(\<lambda>v i. 0) :: memory"
  let ?ps = "[12, - 6, 12, - 6, 6, - 9, 11, - 11] :: real list"
  define s1 where "s1 = qd_init ?J ?ps 8"
  define s2 where "s2 = qd_step ?J 8 2 s1"
  define s3 where "s3 = qd_step ?J 8 3 s2"
  define s4 where "s4 = qd_step ?J 8 4 s3"
  define s5 where "s5 = qd_step ?J 8 5 s4"
  define s6 where "s6 = qd_step ?J 8 6 s5"
  define s7 where "s7 = qd_step ?J 8 7 s6"
  have q1: "q_table s1 =
       [[0, 0, 0, 0, 0, 0, 0, 0],
        [- (1 / 2), - 2, - (1 / 2), - 1, - (3 / 2), - (11 / 9), - 1, 0],
        [0, 0, 0, 0, 0, 0, 0, 0],
        [0, 0, 0, 0, 0, 0, 0, 0],
        [0, 0, 0, 0, 0, 0, 0, 0],
        [0, 0, 0, 0, 0, 0, 0, 0],
        [0, 0, 0, 0, 0, 0, 0, 0],
        [0, 0, 0, 0, 0, 0, 0, 0]]"
    unfolding s1_def by (simp add: qd_init_def Let_def q_row1_def write_row_def rd_def upt_rec replicate_8)
  have e1: "e_table s1 =
       [[0, 0, 0, 0, 0, 0, 0, 0],
        [- (3 / 2), 3 / 2, - (1 / 2), - (1 / 2), 5 / 18, 2 / 9, 1, 0],
        [0, 0, 0, 0, 0, 0, 0, 0],
        [0, 0, 0, 0, 0, 0, 0, 0],
        [0, 0, 0, 0, 0, 0, 0, 0],
        [0, 0, 0, 0, 0, 0, 0, 0],
        [0, 0, 0, 0, 0, 0, 0, 0],
        [0, 0, 0, 0, 0, 0, 0, 0]]"
    unfolding s1_def
    by (simp add: qd_init_def Let_def q_row1_def e_row1_def write_row_def rd_def upt_rec replicate_8)
  have q2: "q_table s2 =
       [[0, 0, 0, 0, 0, 0, 0, 0],
        [- (1 / 2), - 2, - (1 / 2), - 1, - (3 / 2), - (11 / 9), - 1, 0],
        [2, 1 / 6, - 1, 5 / 6, - (44 / 45), - (9 / 2), 0, 0],
        [0, 0, 0, 0, 0, 0, 0, 0],
        [0, 0, 0, 0, 0, 0, 0, 0],
        [0, 0, 0, 0, 0, 0, 0, 0],
        [0, 0, 0, 0, 0, 0, 0, 0],
        [0, 0, 0, 0, 0, 0, 0, 0]]"
    unfolding s2_def
    by (simp add: qd_step_def Let_def q_row_def write_row_def rd_def upt_rec replicate_8 q1 e1)
  have e2: "e_table s2 =
       [[0, 0, 0, 0, 0, 0, 0, 0],
        [- (3 / 2), 3 / 2, - (1 / 2), - (1 / 2), 5 / 18, 2 / 9, 1, 0],
        [- (1 / 3), - (5 / 3), 4 / 3, - (23 / 15), - (33 / 10), 11 / 2, 0, 0],
        [0, 0, 0, 0, 0, 0, 0, 0],
        [0, 0, 0, 0, 0, 0, 0, 0],
        [0, 0, 0, 0, 0, 0, 0, 0],
        [0, 0, 0, 0, 0, 0, 0, 0],
        [0, 0, 0, 0, 0, 0, 0, 0]]"
    unfolding s2_def
    by (simp add: qd_step_def Let_def q_row_def e_row_def write_row_def rd_def upt_rec replicate_8 q1 e1)
  have q3: "q_table s3 =
       [[0, 0, 0, 0, 0, 0, 0, 0],
        [- (1 / 2), - 2, - (1 / 2), - 1, - (3 / 2), - (11 / 9), - 1, 0],
        [2, 1 / 6, - 1, 5 / 6, - (44 / 45), - (9 / 2), 0, 0],
        [5 / 6, 4 / 5, - (23 / 24), - (242 / 115), 15 / 2, 0, 0, 0],
        [0, 0, 0, 0, 0, 0, 0, 0],
        [0, 0, 0, 0, 0, 0, 0, 0],
        [0, 0, 0, 0, 0, 0, 0, 0],
        [0, 0, 0, 0, 0, 0, 0, 0]]"
    unfolding s3_def
    by (simp add: qd_step_def Let_def q_row_def write_row_def rd_def upt_rec replicate_8 q2 e2)
  have e3: "e_table s3 =
       [[0, 0, 0, 0, 0, 0, 0, 0],
        [- (3 / 2), 3 / 2, - (1 / 2), - (1 / 2), 5 / 18, 2 / 9, 1, 0],
        [- (1 / 3), - (5 / 3), 4 / 3, - (23 / 15), - (33 / 10), 11 / 2, 0, 0],
        [- (17 / 10), - (17 / 40), - (493 / 184), 145 / 23, - 2, 0, 0, 0],
        [0, 0, 0, 0, 0, 0, 0, 0],
        [0, 0, 0, 0, 0, 0, 0, 0],
        [0, 0, 0, 0, 0, 0, 0, 0],
        [0, 0, 0, 0, 0, 0, 0, 0]]"
    unfolding s3_def
    by (simp add: qd_step_def Let_def q_row_def e_row_def write_row_def rd_def upt_rec replicate_8 q2 e2)
  have q4: "q_table s4 =
       [[0, 0, 0, 0, 0, 0, 0, 0],
        [- (1 / 2), - 2, - (1 / 2), - 1, - (3 / 2), - (11 / 9), - 1, 0],
        [2, 1 / 6, - 1, 5 / 6, - (44 / 45), - (9 / 2), 0, 0],
        [5 / 6, 4 / 5, - (23 / 24), - (242 / 115), 15 / 2, 0, 0, 0],
        [1 / 5, - (145 / 24), 1936 / 391, - (69 / 29), 0, 0, 0, 0],
        [0, 0, 0, 0, 0, 0, 0, 0],
        [0, 0, 0, 0, 0, 0, 0, 0],
        [0, 0, 0, 0, 0, 0, 0, 0]]"
    unfolding s4_def
    by (simp add: qd_step_def Let_def q_row_def write_row_def rd_def upt_rec replicate_8 q3 e3)
  have e4: "e_table s4 =
       [[0, 0, 0, 0, 0, 0, 0, 0],
        [- (3 / 2), 3 / 2, - (1 / 2), - (1 / 2), 5 / 18, 2 / 9, 1, 0],
        [- (1 / 3), - (5 / 3), 4 / 3, - (23 / 15), - (33 / 10), 11 / 2, 0, 0],
        [- (17 / 10), - (17 / 40), - (493 / 184), 145 / 23, - 2, 0, 0, 0],
        [- (20 / 3), 424 / 51, - (506 / 493), 11 / 29, 0, 0, 0, 0],
        [0, 0, 0, 0, 0, 0, 0, 0],
        [0, 0, 0, 0, 0, 0, 0, 0],
        [0, 0, 0, 0, 0, 0, 0, 0]]"
    unfolding s4_def
    by (simp add: qd_step_def Let_def q_row_def e_row_def write_row_def rd_def upt_rec replicate_8 q3 e3)
  have q5: "q_table s5 =
       [[0, 0, 0, 0, 0, 0, 0, 0],
        [- (1 / 2), - 2, - (1 / 2), - 1, - (3 / 2), - (11 / 9), - 1, 0],
        [2, 1 / 6, - 1, 5 / 6, - (44 / 45), - (9 / 2), 0, 0],
        [5 / 6, 4 / 5, - (23 / 24), - (242 / 115), 15 / 2, 0, 0, 0],
        [1 / 5, - (145 / 24), 1936 / 391, - (69 / 29), 0, 0, 0, 0],
        [1537 / 204, - (15972 / 26129), 51 / 58, 0, 0, 0, 0, 0],
        [0, 0, 0, 0, 0, 0, 0, 0],
        [0, 0, 0, 0, 0, 0, 0, 0]]"
    unfolding s5_def
    by (simp add: qd_step_def Let_def q_row_def write_row_def rd_def upt_rec replicate_8 q4 e4)
  have e5: "e_table s5 =
       [[0, 0, 0, 0, 0, 0, 0, 0],
        [- (3 / 2), 3 / 2, - (1 / 2), - (1 / 2), 5 / 18, 2 / 9, 1, 0],
        [- (1 / 3), - (5 / 3), 4 / 3, - (23 / 15), - (33 / 10), 11 / 2, 0, 0],
        [- (17 / 10), - (17 / 40), - (493 / 184), 145 / 23, - 2, 0, 0, 0],
        [- (20 / 3), 424 / 51, - (506 / 493), 11 / 29, 0, 0, 0, 0],
        [17573 / 104516, 1427 / 3074, - (1 / 2), 0, 0, 0, 0, 0],
        [0, 0, 0, 0, 0, 0, 0, 0],
        [0, 0, 0, 0, 0, 0, 0, 0]]"
    unfolding s5_def
    by (simp add: qd_step_def Let_def q_row_def e_row_def write_row_def rd_def upt_rec replicate_8 q4 e4)
  have q6: "q_table s6 =
       [[0, 0, 0, 0, 0, 0, 0, 0],
        [- (1 / 2), - 2, - (1 / 2), - 1, - (3 / 2), - (11 / 9), - 1, 0],
        [2, 1 / 6, - 1, 5 / 6, - (44 / 45), - (9 / 2), 0, 0],
        [5 / 6, 4 / 5, - (23 / 24), - (242 / 115), 15 / 2, 0, 0, 0],
        [1 / 5, - (145 / 24), 1936 / 391, - (69 / 29), 0, 0, 0, 0],
        [1537 / 204, - (15972 / 26129), 51 / 58, 0, 0, 0, 0, 0],
        [- (45584088 / 27009701), - (2703 / 2854), 0, 0, 0, 0, 0, 0],
        [0, 0, 0, 0, 0, 0, 0, 0]]"
    unfolding s6_def
    by (simp add: qd_step_def Let_def q_row_def write_row_def rd_def upt_rec replicate_8 q5 e5)
  have e6: "e_table s6 =
       [[0, 0, 0, 0, 0, 0, 0, 0],
        [- (3 / 2), 3 / 2, - (1 / 2), - (1 / 2), 5 / 18, 2 / 9, 1, 0],
        [- (1 / 3), - (5 / 3), 4 / 3, - (23 / 15), - (33 / 10), 11 / 2, 0, 0],
        [- (17 / 10), - (17 / 40), - (493 / 184), 145 / 23, - 2, 0, 0, 0],
        [- (20 / 3), 424 / 51, - (506 / 493), 11 / 29, 0, 0, 0, 0],
        [17573 / 104516, 1427 / 3074, - (1 / 2), 0, 0, 0, 0, 0],
        [30212809 / 25076671, 638 / 1427, 0, 0, 0, 0, 0, 0],
        [0, 0, 0, 0, 0, 0, 0, 0]]"
    unfolding s6_def
    by (simp add: qd_step_def Let_def q_row_def e_row_def write_row_def rd_def upt_rec replicate_8 q5 e5)
  have q7: "q_table s7 =
       [[0, 0, 0, 0, 0, 0, 0, 0],
        [- (1 / 2), - 2, - (1 / 2), - 1, - (3 / 2), - (11 / 9), - 1, 0],
        [2, 1 / 6, - 1, 5 / 6, - (44 / 45), - (9 / 2), 0, 0],
        [5 / 6, 4 / 5, - (23 / 24), - (242 / 115), 15 / 2, 0, 0, 0],
        [1 / 5, - (145 / 24), 1936 / 391, - (69 / 29), 0, 0, 0, 0],
        [1537 / 204, - (15972 / 26129), 51 / 58, 0, 0, 0, 0, 0],
        [- (45584088 / 27009701), - (2703 / 2854), 0, 0, 0, 0, 0, 0],
        [- (896223 / 2550049), 0, 0, 0, 0, 0, 0, 0]]"
    unfolding s7_def
    by (simp add: qd_step_def Let_def q_row_def write_row_def rd_def upt_rec replicate_8 q6 e6)
  have e7: "e_table s7 =
       [[0, 0, 0, 0, 0, 0, 0, 0],
        [- (3 / 2), 3 / 2, - (1 / 2), - (1 / 2), 5 / 18, 2 / 9, 1, 0],
        [- (1 / 3), - (5 / 3), 4 / 3, - (23 / 15), - (33 / 10), 11 / 2, 0, 0],
        [- (17 / 10), - (17 / 40), - (493 / 184), 145 / 23, - 2, 0, 0, 0],
        [- (20 / 3), 424 / 51, - (506 / 493), 11 / 29, 0, 0, 0, 0],
        [17573 / 104516, 1427 / 3074, - (1 / 2), 0, 0, 0, 0, 0],
        [30212809 / 25076671, 638 / 1427, 0, 0, 0, 0, 0, 0],
        [1427 / 1787, 0, 0, 0, 0, 0, 0, 0]]"
    unfolding s7_def
    by (simp add: qd_step_def Let_def q_row_def e_row_def write_row_def rd_def upt_rec replicate_8 q6 e6)
  have run: "fold (qd_step ?J 8) [2..<8] (qd_init ?J ?ps 8) = s7"
    unfolding s7_def s6_def s5_def s4_def s3_def s2_def s1_def by (simp add: upt_rec)
  have len: "length ?ps = 8" by simp
  show ?thesis
    unfolding quotdiff_algorithm_def Let_def len run
    by (simp add: qd_output_def upt_rec q7 e7)
qed

lemma cf_eval_example:
  "cf_eval (\<lambda>v i. 0)
     \<lparr>ps_coeffs = ps, cf_coeffs = [12, 1 / 2, 3 / 2, - 2, 1 / 3, - (5 / 6), 17 / 10, - (1 / 5)],
      offset_coeffs = [], diagonal_idx = 0, degree = 8\<rparr> 1 = 72 / 5"
  "cf_eval (\<lambda>v i. 0)
     \<lparr>ps_coeffs = ps, cf_coeffs = [12, 1 / 2, 3 / 2, - 2, 1 / 3, - (5 / 6), 17 / 10, - (1 / 5)],
      offset_coeffs = [], diagonal_idx = 0, degree = 8\<rparr> 2 = 768 / 13"
  "cf_eval (\<lambda>v i. 0)
     \<lparr>ps_coeffs = ps, cf_coeffs = [12, 1 / 2, 3 / 2, - 2, 1 / 3, - (5 / 6), 17 / 10, - (1 / 5)],
      offset_coeffs = [], diagonal_idx = 0, degree = 6\<rparr> 1 = 11"
  "cf_eval (\<lambda>v i. 0)
     \<lparr>ps_coeffs = ps, cf_coeffs = [12, 1 / 2, 3 / 2, - 2, 1 / 3, - (5 / 6), 17 / 10, - (1 / 5)],
      offset_coeffs = [], diagonal_idx = 0, degree = 6\<rparr> 2 = 12"
  by (simp_all add: cf_eval_def evaluate_on_diagonal_def euler_loop_def euler_step_def
        euler_init_def get_rescale_value_def TOLERANCE_def rd_def Let_def upt_rec)

theorem optimal_continued_fraction_first_stable_witness:
  "adjusted_max_terms \<lparr>approx_diagonal_idx = 0, max_terms = 9, step_size = 1, max_value = 2\<rparr> = 8 \<and>
   tried_degrees 8 = [8, 6] \<and>
   2 < grid_point (dadd exact_arith) 1 2 \<and>
   \<not> degree_passes exact_arith (\<lambda>v i. 0)
        \<lparr>approx_diagonal_idx = 0, max_terms = 9, step_size = 1, max_value = 2\<rparr>
        [8, 12, 6, 12, 6, 6, 9, 11, 11]
        (power_series (\<lambda>v i. 0) [8, 12, 6, 12, 6, 6, 9, 11, 11] 8) 8 \<and>
   degree_passes exact_arith (\<lambda>v i. 0)
        \<lparr>approx_diagonal_idx = 0, max_terms = 9, step_size = 1, max_value = 2\<rparr>
        [8, 12, 6, 12, 6, 6, 9, 11, 11]
        (power_series (\<lambda>v i. 0) [8, 12, 6, 12, 6, 6, 9, 11, 11] 8) 6 \<and>
   (\<exists>cf. optimal_continued_fraction exact_arith (\<lambda>v i. 0)
            \<lparr>approx_diagonal_idx = 0, max_terms = 9, step_size = 1, max_value = 2\<rparr>
            [8, 12, 6, 12, 6, 6, 9, 11, 11] = Some (Inr cf) \<and> degree cf = 6)"
proof -
  let ?cfa = "\<lparr>approx_diagonal_idx = 0, max_terms = 9, step_size = 1, max_value = 2\<rparr>"
  let ?J = "(\<lambda>v i. 0) :: memory"
  let ?hist = "[8, 12, 6, 12, 6, 6, 9, 11, 11] :: real list"
  let ?ps = "[12, - 6, 12, - 6, 6, - 9, 11, - 11] :: real list"
  let ?cfc = "[12, 1 / 2, 3 / 2, - 2, 1 / 3, - (5 / 6), 17 / 10, - (1 / 5)] :: real list"
  let ?cf = "\<lambda>d. \<lparr>ps_coeffs = ?ps, cf_coeffs = ?cfc, offset_coeffs = [], diagonal_idx = 0,
                   degree = d\<rparr>"
  have adj: "adjusted_max_terms ?cfa = 8" by (simp add: adjusted_max_terms_def)
  have td: "tried_degrees 8 = [8, 6]" by (simp add: tried_degrees_def upt_rec)
  have ps: "power_series ?J ?hist 8 = ?ps"
    by (simp add: power_series_def rd_def upt_rec)
  have g0: "grid_point (dadd exact_arith) 1 0 \<le> 2" by (simp add: exact_arith_def)
  have g1: "grid_point (dadd exact_arith) 1 1 \<le> 2" by (simp add: exact_arith_def)
  have g2: "2 < grid_point (dadd exact_arith) 1 2"
    by (simp add: exact_arith_def numeral_2_eq_2)
  have below: "\<forall>k<2. grid_point (dadd exact_arith) 1 k \<le> 2"
    using g0 g1 by (simp add: less_Suc_eq numeral_2_eq_2)
  have grid: "adjusted_max_terms ?cfa < 6 \<or>
              (\<exists>k. max_value ?cfa < grid_point (dadd exact_arith) (step_size ?cfa) k)"
    using g2 by auto
  have ctor: "adjusted_max_terms ?cfa < 6 \<or>
              nat \<bar>approx_diagonal_idx ?cfa\<bar> + 2 \<le> adjusted_max_terms ?cfa"
    unfolding adj by simp
  have new: "new_ContinuedFraction ?J ?ps 0 d = Inr (?cf d)" for d
    using quotdiff_algorithm_example
    by (cases "quotdiff_algorithm ?J ?ps []") (simp_all add: new_ContinuedFraction_def)
  have est: "extrapolate_distinct exact_arith ?J (?cf d) ?hist 2 1 =
               Some [81, 81 + cf_eval ?J (?cf d) 1, 81 + cf_eval ?J (?cf d) 2]" for d
    unfolding extrapolate_distinct_exit[OF below g2]
    by (simp add: exact_arith_def upt_rec numeral_2_eq_2)
  have ds: "dsub exact_arith = (-)" by (simp add: exact_arith_def)
  have fail8: "\<not> degree_passes exact_arith ?J ?cfa ?hist (power_series ?J ?hist 8) 8"
    unfolding ps degree_passes_def
    by (simp add: new est cf_eval_example check_estimates_stability_def stability_loop.simps ds)
  have pass6: "degree_passes exact_arith ?J ?cfa ?hist (power_series ?J ?hist 8) 6"
    unfolding ps degree_passes_def
    by (simp add: new est cf_eval_example check_estimates_stability_def stability_loop.simps ds)
  note main = optimal_continued_fraction_first_stable[OF grid ctor, of ?J ?hist]
  have six: "6 \<in> set (tried_degrees (adjusted_max_terms ?cfa))"
    unfolding adj td by simp
  have only: "\<forall>d' \<in> set (tried_degrees (adjusted_max_terms ?cfa)). 6 < d' \<longrightarrow>
                \<not> degree_passes exact_arith ?J ?cfa ?hist
                     (power_series ?J ?hist (adjusted_max_terms ?cfa)) d'"
    unfolding adj td using fail8 by simp
  have pass: "degree_passes exact_arith ?J ?cfa ?hist
                (power_series ?J ?hist (adjusted_max_terms ?cfa)) 6"
    unfolding adj by (rule pass6)
  have built: "new_ContinuedFraction ?J (power_series ?J ?hist (adjusted_max_terms ?cfa))
                 (approx_diagonal_idx ?cfa) 6 = Inr (?cf 6)"
    unfolding adj ps using new[of 6] by simp
  have ex: "\<exists>d \<in> set (tried_degrees (adjusted_max_terms ?cfa)).
      degree_passes exact_arith ?J ?cfa ?hist
        (power_series ?J ?hist (adjusted_max_terms ?cfa)) d \<and>
      (\<forall>d' \<in> set (tried_degrees (adjusted_max_terms ?cfa)). d < d' \<longrightarrow>
         \<not> degree_passes exact_arith ?J ?cfa ?hist
              (power_series ?J ?hist (adjusted_max_terms ?cfa)) d') \<and>
      new_ContinuedFraction ?J (power_series ?J ?hist (adjusted_max_terms ?cfa))
        (approx_diagonal_idx ?cfa) d = Inr (?cf 6)"
  proof (rule bexI[where x = 6])
    show "degree_passes exact_arith ?J ?cfa ?hist
        (power_series ?J ?hist (adjusted_max_terms ?cfa)) 6 \<and>
      (\<forall>d' \<in> set (tried_degrees (adjusted_max_terms ?cfa)). 6 < d' \<longrightarrow>
         \<not> degree_passes exact_arith ?J ?cfa ?hist
              (power_series ?J ?hist (adjusted_max_terms ?cfa)) d') \<and>
      new_ContinuedFraction ?J (power_series ?J ?hist (adjusted_max_terms ?cfa))
        (approx_diagonal_idx ?cfa) 6 = Inr (?cf 6)"
      by (rule conjI[OF pass conjI[OF only built]])
    show "6 \<in> set (tried_degrees (adjusted_max_terms ?cfa))" by (rule six)
  qed
  have res: "optimal_continued_fraction exact_arith ?J ?cfa ?hist = Some (Inr (?cf 6))"
    by (rule iffD2[OF spec[OF conjunct1[OF conjunct2[OF conjunct2[OF conjunct2[OF main]]]],
          of "?cf 6"] ex])
  have ret: "\<exists>cf. optimal_continued_fraction exact_arith ?J ?cfa ?hist = Some (Inr cf) \<and>
               degree cf = 6"
    using res by simp
  show ?thesis
    by (rule conjI[OF adj conjI[OF td conjI[OF g2 conjI[OF fail8 conjI[OF pass6 ret]]]]])
qed

text \<open>
  With \<open>step_size = 0\<close> and \<open>max_value = 1\<close> the call does not return; with diagonal index
  5 and \<open>max_terms = 6\<close> the constructor accesses row 1 of tables that have one row.
\<close>

theorem optimal_continued_fraction_no_result:
  "optimal_continued_fraction exact_arith (\<lambda>v i. 0)
     \<lparr>approx_diagonal_idx = 0, max_terms = 6, step_size = 0, max_value = 1\<rparr>
     [5, 10, 8, 6, 4, 3, 2] = None \<and>
   optimal_continued_fraction exact_arith (\<lambda>v i. 0)
     \<lparr>approx_diagonal_idx = 5, max_terms = 6, step_size = 1, max_value = 2\<rparr>
     [5, 10, 8, 6, 4, 3, 2] = Some (Inl OutOfRange)"
proof -
  let ?J = "(\<lambda>v i. 0) :: memory"
  let ?hist = "[5, 10, 8, 6, 4, 3, 2] :: real list"
  let ?ps = "power_series ?J ?hist 6"
  let ?a = "\<lparr>approx_diagonal_idx = 0, max_terms = 6, step_size = 0, max_value = 1\<rparr>"
  let ?b = "\<lparr>approx_diagonal_idx = 5, max_terms = 6, step_size = 1, max_value = 2\<rparr>"
  have adja: "adjusted_max_terms ?a = 6" by (simp add: adjusted_max_terms_def)
  have adjb: "adjusted_max_terms ?b = 6" by (simp add: adjusted_max_terms_def)
  obtain cf where cf: "new_ContinuedFraction ?J ?ps 0 6 = Inr cf"
    using new_ContinuedFraction_defined[of ?J ?ps 0 6] by (auto simp: length_power_series)
  have none: "extrapolate_distinct exact_arith ?J cf ?hist 1 0 = None"
    unfolding extrapolate_distinct_None_iff
    by (simp add: exact_arith_def grid_point_zero_step)
  have a: "optimal_continued_fraction exact_arith ?J ?a ?hist = None"
    unfolding optimal_continued_fraction_def Let_def adja
    by (subst optimal_loop.simps) (simp add: MIN_ALLOWED_DEGREE_def cf none)
  have short: "new_ContinuedFraction ?J ?ps 5 6 = Inl OutOfRange"
    by (simp add: new_ContinuedFraction_def quotdiff_above_diagonal_def quotdiff_algorithm_def
          Let_def length_power_series)
  have b: "optimal_continued_fraction exact_arith ?J ?b ?hist = Some (Inl OutOfRange)"
    unfolding optimal_continued_fraction_def Let_def adjb
    by (subst optimal_loop.simps) (simp add: MIN_ALLOWED_DEGREE_def short)
  show ?thesis by (rule conjI[OF a b])
qed

subsection \<open>A histogram with a zero tail\<close>

text \<open>
  Claim C8 says that a histogram in which only the entry at index 0 is non-zero makes
  \<open>optimal_continued_fraction\<close> signal a fitting failure rather than return a
  ContinuedFraction. The code does not inspect the series. With
  \<open>counts_hist = {5, 0, 0, 0, 0, 0, 0}\<close>, \<open>max_terms = 6\<close>, diagonal index 0,
  \<open>step_size = 1\<close> and \<open>max_value = 2\<close> every power-series coefficient is zero, the
  quotients \<open>ps_coeffs[i + 1]/ps_coeffs[i]\<close> of line 76 are \<open>0/0\<close>, NaN in double
  arithmetic, and the estimates of degree 6 are \<open>{5, NaN, NaN}\<close>.
  \<open>check_estimates_stability\<close>, which is there to make sure that the estimates increase
  (lines 619-620), accepts them, because every comparison with NaN is false: the
  ContinuedFraction of degree 6 is returned and no failure is signalled.
\<close>

theorem check_estimates_stability_accepts_nan:
  "check_estimates_stability ieee_lt ieee_sub [Finite 5, NaN, NaN]"
  by (simp add: check_estimates_stability_def stability_loop.simps)

subsection \<open>The conservative bound\<close>

text \<open>
  Claim C7 says that \<open>lowerbound_librarysize\<close> tries every degree from the even-adjusted
  \<open>max_terms\<close> down to and including the minimum allowed degree 6. The loop of line 695
  runs while \<open>n_terms > MIN_ALLOWED_DEGREE\<close>, so degree 6 is never tried: with
  \<open>max_terms = 6\<close> no ContinuedFraction is built and the initial value of \<open>best\<close> is
  returned.
\<close>

theorem lowerbound_skips_minimum_degree:
  "lowerbound_librarysize junk
     \<lparr>approx_diagonal_idx = di, max_terms = 6, step_size = ss, max_value = mv\<rparr>
     counts_hist upper_bound = Some (Inr DBL_MAX)"
  by (simp add: lowerbound_librarysize_def adjusted_max_terms_def MIN_ALLOWED_DEGREE_def
        lowerbound_loop.simps)

end
